theory Spec2Isabelle
  imports Complex_Main "HOL-Library.Log_Nat" "HOL-Library.Multiset"
begin

section \<open>Array values\<close>

text \<open>
  The estimator works on one-dimensional numpy arrays of 64-bit floats. An array is a
  list, and an element is an IEEE 754 binary64 value: a finite number, one of the two
  infinities, or not-a-number. A finite value is written as the rational it denotes.

  Every arithmetic operation computes the exact rational result and rounds it to the
  nearest double, ties to the even significand, with gradual underflow and with overflow
  to an infinity, as the hardware does. The special values follow IEEE 754 as numpy
  applies it (a warning, never an exception).

  The two zeros are one value \<open>Fin 0\<close>. They compare equal, and the one place where
  their sign could show, a division by a total of zero, is not affected: a float sum is
  the negative zero only if every summand is, and then every numerator in \<open>update\<close>
  is a zero and the quotient is not-a-number whatever the signs.
\<close>

datatype npfloat = Fin rat | PInf | NInf | NaN

text \<open>The infinity with the sign of \<open>s\<close>; \<open>0 * inf\<close> and \<open>0 / 0\<close> are not-a-number.\<close>

definition signed_inf :: "rat \<Rightarrow> npfloat" where
  "signed_inf s = (if s = 0 then NaN else if 0 < s then PInf else NInf)"

text \<open>
  The binary exponent of a positive rational: the integer \<open>e\<close> with
  \<open>2^e \<le> a < 2^(e+1)\<close>.
\<close>

definition ilog2 :: "rat \<Rightarrow> int" where
  "ilog2 a = (if 1 \<le> a then bitlen \<lfloor>a\<rfloor> - 1 else - bitlen (\<lceil>1 / a\<rceil> - 1))"

text \<open>Rounding to the nearest integer, a tie to the even one.\<close>

definition rne :: "rat \<Rightarrow> int" where
  "rne y = (let f = \<lfloor>y\<rfloor>; d = y - of_int f
            in if d < 1 / 2 then f
               else if 1 / 2 < d then f + 1
               else if even f then f else f + 1)"

text \<open>
  Rounding a rational to binary64. The exponent is that of the number, but not below
  \<open>-1022\<close> (subnormal numbers share the smallest exponent); the spacing of the doubles
  there is \<open>2^(e - 52)\<close>; the significand \<open>m\<close> is the number of spacings, rounded. The
  result overflows when it reaches \<open>2^1024\<close>, that is when the exponent exceeds 1023 or
  the significand of a number of exponent 1023 rounds up to \<open>2^53\<close>.
\<close>

definition round64 :: "rat \<Rightarrow> npfloat" where
  "round64 x =
     (if x = 0 then Fin 0
      else let a = \<bar>x\<bar>;
               e = max (ilog2 a) (- 1022);
               q = 2 powi (e - 52);
               m = rne (a / q)
           in if 1023 < e \<or> (e = 1023 \<and> 2 ^ 53 \<le> m)
              then (if 0 < x then PInf else NInf)
              else Fin (if 0 < x then of_int m * q else - (of_int m * q)))"

text \<open>The double that a Python literal or a converted integer denotes.\<close>

definition double :: "rat \<Rightarrow> npfloat" where
  "double q = round64 q"

fun fmul :: "npfloat \<Rightarrow> npfloat \<Rightarrow> npfloat" where
  "fmul (Fin a) (Fin b) = round64 (a * b)"
| "fmul (Fin a) PInf = signed_inf a"
| "fmul (Fin a) NInf = signed_inf (- a)"
| "fmul PInf (Fin b) = signed_inf b"
| "fmul NInf (Fin b) = signed_inf (- b)"
| "fmul PInf PInf = PInf"
| "fmul PInf NInf = NInf"
| "fmul NInf PInf = NInf"
| "fmul NInf NInf = PInf"
| "fmul NaN y = NaN"
| "fmul x NaN = NaN"

fun fadd :: "npfloat \<Rightarrow> npfloat \<Rightarrow> npfloat" where
  "fadd (Fin a) (Fin b) = round64 (a + b)"
| "fadd (Fin a) PInf = PInf"
| "fadd (Fin a) NInf = NInf"
| "fadd PInf (Fin b) = PInf"
| "fadd NInf (Fin b) = NInf"
| "fadd PInf PInf = PInf"
| "fadd NInf NInf = NInf"
| "fadd PInf NInf = NaN"
| "fadd NInf PInf = NaN"
| "fadd NaN y = NaN"
| "fadd x NaN = NaN"

fun fdiv :: "npfloat \<Rightarrow> npfloat \<Rightarrow> npfloat" where
  "fdiv (Fin a) (Fin b) = (if b = 0 then signed_inf a else round64 (a / b))"
| "fdiv (Fin a) PInf = Fin 0"
| "fdiv (Fin a) NInf = Fin 0"
| "fdiv PInf (Fin b) = (if 0 \<le> b then PInf else NInf)"
| "fdiv NInf (Fin b) = (if 0 \<le> b then NInf else PInf)"
| "fdiv PInf PInf = NaN"
| "fdiv PInf NInf = NaN"
| "fdiv NInf PInf = NaN"
| "fdiv NInf NInf = NaN"
| "fdiv NaN y = NaN"
| "fdiv x NaN = NaN"

text \<open>The comparison \<open>x >= y\<close>: false as soon as one side is not-a-number.\<close>

fun fge :: "npfloat \<Rightarrow> npfloat \<Rightarrow> bool" where
  "fge (Fin a) (Fin b) = (b \<le> a)"
| "fge (Fin a) PInf = False"
| "fge (Fin a) NInf = True"
| "fge PInf (Fin b) = True"
| "fge NInf (Fin b) = False"
| "fge PInf PInf = True"
| "fge PInf NInf = True"
| "fge NInf PInf = False"
| "fge NInf NInf = True"
| "fge NaN y = False"
| "fge x NaN = False"

datatype error = IndexError | ValueError | KeyError

text \<open>
  \<open>a * b\<close> on two one-dimensional arrays. Equal lengths multiply elementwise; an array of
  length one is stretched to the length of the other (broadcasting); any other pair of
  lengths raises \<open>ValueError\<close> (operands could not be broadcast together).
\<close>

definition np_mul :: "npfloat list \<Rightarrow> npfloat list \<Rightarrow> error + npfloat list" where
  "np_mul a b =
     (if length a = length b then Inr (map2 fmul a b)
      else if length b = 1 then Inr (map (\<lambda>x. fmul x (hd b)) a)
      else if length a = 1 then Inr (map (\<lambda>y. fmul (hd a) y) b)
      else Inl ValueError)"

text \<open>
  \<open>a.sum()\<close> is numpy's pairwise summation of a contiguous float array, started from
  the identity zero. Fewer than eight elements are added from left to right. Up to 128
  elements are added into eight accumulators, element \<open>i\<close> into accumulator \<open>i mod 8\<close>
  for as long as full blocks of eight remain; the accumulators are then added pairwise and
  the remaining elements are added to that sum one by one. A longer array is split at
  half its length, rounded down to a multiple of eight, and the sums of both parts are
  added.
\<close>

fun pw_blocks :: "npfloat list \<Rightarrow> npfloat list \<Rightarrow> npfloat list \<times> npfloat list" where
  "pw_blocks r xs =
     (if 8 \<le> length xs then pw_blocks (map2 fadd r (take 8 xs)) (drop 8 xs) else (r, xs))"

fun combine8 :: "npfloat list \<Rightarrow> npfloat" where
  "combine8 [r0, r1, r2, r3, r4, r5, r6, r7] =
     fadd (fadd (fadd r0 r1) (fadd r2 r3)) (fadd (fadd r4 r5) (fadd r6 r7))"
| "combine8 r = Fin 0"

definition half8 :: "nat \<Rightarrow> nat" where
  "half8 n = n div 2 - (n div 2) mod 8"

function pairwise_sum :: "npfloat list \<Rightarrow> npfloat" where
  "pairwise_sum xs =
     (if length xs < 8 then foldl fadd (Fin 0) xs
      else if length xs \<le> 128
      then (case pw_blocks (take 8 xs) (drop 8 xs) of
              (r, rest) \<Rightarrow> foldl fadd (combine8 r) rest)
      else fadd (pairwise_sum (take (half8 (length xs)) xs))
                (pairwise_sum (drop (half8 (length xs)) xs)))"
  by pat_completeness auto
termination
  by (relation "measure length") (auto simp: half8_def)

definition np_sum :: "npfloat list \<Rightarrow> npfloat" where
  "np_sum xs = fadd (Fin 0) (pairwise_sum xs)"

text \<open>\<open>a / s\<close> for an array \<open>a\<close> and a scalar \<open>s\<close>.\<close>

definition np_div :: "npfloat list \<Rightarrow> npfloat \<Rightarrow> npfloat list" where
  "np_div a s = map (\<lambda>x. fdiv x s) a"

text \<open>
  \<open>scipy.stats.randint(low, high).pmf\<close>, the prior distribution the notebook uses:
  mass \<open>1.0 / (high - low)\<close> on every integer \<open>k\<close> with \<open>low \<le> k < high\<close>, zero
  elsewhere, not-a-number at not-a-number and when the parameters are invalid.
\<close>

definition randint_pmf :: "int \<Rightarrow> int \<Rightarrow> npfloat \<Rightarrow> npfloat" where
  "randint_pmf low high k =
     (if high \<le> low then NaN
      else case k of
        Fin q \<Rightarrow>
          if of_int \<lfloor>q\<rfloor> = q \<and> of_int low \<le> q \<and> q < of_int high
          then round64 (1 / of_int (high - low)) else Fin 0
      | NaN \<Rightarrow> NaN
      | _ \<Rightarrow> Fin 0)"

section \<open>The estimator\<close>

record estimator =
  hypotheses :: "npfloat list"
  prior_dist :: "npfloat \<Rightarrow> npfloat"
  priors :: "npfloat list"
  posteriors :: "npfloat list list"

text \<open>
  \<open>BayesianEstimation.__init__\<close>: the prior is the pmf evaluated at every hypothesis,
  and the history starts as the list holding the prior alone.
\<close>

definition BayesianEstimation :: "npfloat list \<Rightarrow> (npfloat \<Rightarrow> npfloat) \<Rightarrow> estimator" where
  "BayesianEstimation hyps pmf =
     \<lparr>hypotheses = hyps, prior_dist = pmf, priors = map pmf hyps,
      posteriors = [map pmf hyps]\<rparr>"

text \<open>
  \<open>BayesianEstimation.update\<close>, returning what the call returns or raises together with
  the estimator after the call. The product is computed before \<open>append\<close> runs, so an
  exception raised by \<open>posteriors[-1]\<close> or by the product leaves the estimator as it was.
  The source then appends the product and overwrites this last entry by the quotient.
\<close>

definition update :: "estimator \<Rightarrow> npfloat list \<Rightarrow> (error + npfloat list) \<times> estimator" where
  "update self likelihood =
     (if posteriors self = [] then (Inl IndexError, self)
      else case np_mul (last (posteriors self)) likelihood of
        Inl err \<Rightarrow> (Inl err, self)
      | Inr unnorm \<Rightarrow>
          (let self1 = self\<lparr>posteriors := posteriors self @ [unnorm]\<rparr>;
               ps = posteriors self1;
               normalized = np_div (last ps) (np_sum (last ps));
               self2 = self1\<lparr>posteriors := ps[length ps - 1 := normalized]\<rparr>
           in (Inr (last (posteriors self2)), self2)))"

text \<open>
  A caller making one \<open>update\<close> call after the other, as the notebook does; the first
  exception ends the sequence.
\<close>

fun run_updates :: "estimator \<Rightarrow> npfloat list list \<Rightarrow> error + estimator" where
  "run_updates e [] = Inr e"
| "run_updates e (l # ls) =
     (case update e l of
        (Inl err, _) \<Rightarrow> Inl err
      | (Inr _, e') \<Rightarrow> run_updates e' ls)"

text \<open>
  The total by which \<open>update\<close> divides is usable when it is finite and not zero. The
  source makes no such test; the predicates name the calls in which the division is the
  normalization the specification describes.
\<close>

fun finite_nonzero :: "npfloat \<Rightarrow> bool" where
  "finite_nonzero (Fin t) = (t \<noteq> 0)"
| "finite_nonzero _ = False"

definition normalizable :: "estimator \<Rightarrow> npfloat list \<Rightarrow> bool" where
  "normalizable e l =
     (posteriors e \<noteq> [] \<and>
      (case np_mul (last (posteriors e)) l of
         Inl _ \<Rightarrow> False
       | Inr unnorm \<Rightarrow> finite_nonzero (np_sum unnorm)))"

fun updates_succeed :: "estimator \<Rightarrow> npfloat list list \<Rightarrow> bool" where
  "updates_succeed e [] = True"
| "updates_succeed e (l # ls) = (normalizable e l \<and> updates_succeed (snd (update e l)) ls)"

section \<open>The quantile helper\<close>

text \<open>
  A data frame is the list of its rows, a row maps a column name to the value it holds;
  \<open>iterrows\<close> visits the rows in order and gives every value as a float.
  \<open>DataFrame.from_dict\<close> on the two columns the notebook builds raises \<open>ValueError\<close>
  when the arrays differ in length; a repeated dictionary key keeps the later array.
\<close>

type_synonym row = "string \<rightharpoonup> npfloat"

type_synonym dataframe = "row list"

definition from_dict :: "string \<Rightarrow> npfloat list \<Rightarrow> string \<Rightarrow> npfloat list \<Rightarrow> error + dataframe" where
  "from_dict col_hypos hyps col_probs probs =
     (if length hyps = length probs
      then Inr (map2 (\<lambda>h p. [col_hypos \<mapsto> h, col_probs \<mapsto> p]) hyps probs)
      else Inl ValueError)"

text \<open>
  The loop of \<open>get_quantile\<close> with the accumulator as an argument. A missing column raises
  \<open>KeyError\<close> at the first row that is read; falling out of the loop returns \<open>np.nan\<close>.
\<close>

fun get_quantile_loop :: "dataframe \<Rightarrow> string \<Rightarrow> string \<Rightarrow> npfloat \<Rightarrow> npfloat \<Rightarrow> error + npfloat" where
  "get_quantile_loop [] col_probs col_hypos desired_prob acc_probs = Inr NaN"
| "get_quantile_loop (r # rows) col_probs col_hypos desired_prob acc_probs =
     (case r col_probs of
        None \<Rightarrow> Inl KeyError
      | Some pr \<Rightarrow>
          (let acc = fadd acc_probs pr
           in if fge acc desired_prob
              then (case r col_hypos of None \<Rightarrow> Inl KeyError | Some h \<Rightarrow> Inr h)
              else get_quantile_loop rows col_probs col_hypos desired_prob acc))"

definition get_quantile :: "dataframe \<Rightarrow> string \<Rightarrow> string \<Rightarrow> npfloat \<Rightarrow> error + npfloat" where
  "get_quantile df_posterior col_probs col_hypos desired_prob =
     get_quantile_loop df_posterior col_probs col_hypos desired_prob (Fin 0)"

text \<open>
  The notebook's use of the helper: one stored distribution is paired with the hypothesis
  set in a data frame, and the quantile is read from it.
\<close>

definition quantile_of :: "string \<Rightarrow> npfloat list \<Rightarrow> string \<Rightarrow> npfloat list \<Rightarrow> npfloat \<Rightarrow> error + npfloat" where
  "quantile_of col_hypos hyps col_probs probs desired_prob =
     (case from_dict col_hypos hyps col_probs probs of
        Inl err \<Rightarrow> Inl err
      | Inr df \<Rightarrow> get_quantile df col_probs col_hypos desired_prob)"


fun scan_reaches :: "npfloat list \<Rightarrow> npfloat \<Rightarrow> npfloat \<Rightarrow> bool" where
  "scan_reaches [] desired_prob acc_probs = False"
| "scan_reaches (pr # probs) desired_prob acc_probs =
     (fge (fadd acc_probs pr) desired_prob \<or> scan_reaches probs desired_prob (fadd acc_probs pr))"

section \<open>Summation trees\<close>

text \<open>
  Whatever the order in which numpy adds the elements, the result is built from the
  elements and zeros by float additions. \<open>sum_tree k M a\<close> says that \<open>a\<close> is such a
  sum of the multiset \<open>M\<close> with \<open>k\<close> additions.
\<close>

inductive sum_tree :: "nat \<Rightarrow> npfloat multiset \<Rightarrow> npfloat \<Rightarrow> bool" where
  zero: "sum_tree 0 {#} (Fin 0)"
| leaf: "sum_tree 0 {#x#} x"
| node: "sum_tree j A a \<Longrightarrow> sum_tree k B b \<Longrightarrow> sum_tree (Suc (j + k)) (A + B) (fadd a b)"

text \<open>The eight accumulators, each with its tree.\<close>

abbreviation (input) acc_trees :: "(nat \<times> npfloat multiset) list \<Rightarrow> npfloat list \<Rightarrow> bool" where
  "acc_trees kms r \<equiv> list_all2 (\<lambda>km v. sum_tree (fst km) (snd km) v) kms r"

section \<open>Rounding errors\<close>

text \<open>
  The unit roundoff of binary64, half the smallest subnormal number, the doubles' grid
  (every finite double is a multiple of \<open>2^-1074\<close>), and the number a finite value
  denotes.
\<close>

definition eps64 :: rat where
  "eps64 = 1 / 2 ^ 53"

definition eta64 :: rat where
  "eta64 = 1 / 2 ^ 1075"

definition on_grid :: "rat \<Rightarrow> bool" where
  "on_grid x = (\<exists>k::int. x = of_int k * 2 powi (- 1074))"

fun val :: "npfloat \<Rightarrow> rat" where
  "val (Fin q) = q"
| "val x = 0"

text \<open>
  The factor that bounds the accumulated rounding of up to \<open>2^21\<close> additions.
\<close>

definition cK :: rat where
  "cK = 1 - 2 ^ 21 * eps64"

text \<open>
  A stored probability or a likelihood is usable when it is a finite number that is not
  negative; a stored distribution sums to one when \<open>d.sum()\<close> is finite and lies
  within \<open>1e-9\<close> of 1.
\<close>

fun nonneg_finite :: "npfloat \<Rightarrow> bool" where
  "nonneg_finite (Fin q) = (0 \<le> q)"
| "nonneg_finite _ = False"

definition sums_to_one :: "npfloat list \<Rightarrow> bool" where
  "sums_to_one d = (case np_sum d of Fin s \<Rightarrow> \<bar>s - 1\<bar> \<le> 1 / 10 ^ 9 | _ \<Rightarrow> False)"

section \<open>Basic facts\<close>

declare pw_blocks.simps [simp del] pairwise_sum.simps [simp del]

lemma round64_zero [simp]: "round64 0 = Fin 0"
  by (simp add: round64_def)

lemma fadd_eq_Fin: "fadd x y = Fin t \<Longrightarrow> \<exists>a b. x = Fin a \<and> y = Fin b"
  by (cases x; cases y) auto


lemma fmul_zero_finite: "fmul (Fin 0) y = Fin c \<Longrightarrow> c = 0"
  by (cases y) (auto simp: signed_inf_def)

lemma fadd_NaN_right [simp]: "fadd x NaN = NaN"
  by (cases x) auto

lemma fadd_zero_zero [simp]: "fadd (Fin 0) (Fin 0) = Fin 0"
  by simp

lemma sum_tree_closed:
  assumes "sum_tree k M a" and "\<forall>x\<in>#M. P x" and "P (Fin 0)"
    and "\<And>x y. P x \<Longrightarrow> P y \<Longrightarrow> P (fadd x y)"
  shows "P a"
  using assms(1,2)
proof (induction rule: sum_tree.induct)
  case zero
  show ?case by (rule assms(3))
next
  case (leaf x)
  then show ?case by simp
next
  case (node j A a k B b)
  then show ?case by (auto intro: assms(4))
qed

lemma sum_tree_absorbs:
  assumes "sum_tree k M a" and "x \<in># M" and "Q x"
    and "\<And>x y. Q x \<or> Q y \<Longrightarrow> Q (fadd x y)"
  shows "Q a"
  using assms(1,2)
proof (induction rule: sum_tree.induct)
  case zero
  then show ?case by simp
next
  case (leaf y)
  with assms(3) show ?case by simp
next
  case (node j A a k B b)
  then show ?case by (auto intro: assms(4))
qed

lemma foldl_tree:
  "sum_tree j A a \<Longrightarrow> sum_tree (j + length xs) (A + mset xs) (foldl fadd a xs)"
proof (induction xs arbitrary: j A a)
  case Nil
  then show ?case by simp
next
  case (Cons x xs)
  have "sum_tree (Suc (j + 0)) (A + {#x#}) (fadd a x)"
    using Cons.prems sum_tree.leaf by (rule sum_tree.node)
  from Cons.IH [OF this] show ?case by (simp add: ac_simps)
qed

lemma add_block_trees:
  assumes "acc_trees kms r" "length blk = length r"
  shows "\<exists>kms'. acc_trees kms' (map2 fadd r blk)
           \<and> sum_list (map snd kms') = sum_list (map snd kms) + mset blk
           \<and> sum_list (map fst kms') = sum_list (map fst kms) + length blk"
  using assms
proof (induction kms r arbitrary: blk rule: list_all2_induct)
  case Nil
  then show ?case by simp
next
  case (Cons km kms v r)
  from Cons.prems obtain x blk' where blk: "blk = x # blk'" "length blk' = length r"
    by (cases blk) auto
  from Cons.IH [OF blk(2)] obtain kms' where
    k: "acc_trees kms' (map2 fadd r blk')"
       "sum_list (map snd kms') = sum_list (map snd kms) + mset blk'"
       "sum_list (map fst kms') = sum_list (map fst kms) + length blk'"
    by blast
  have "sum_tree (Suc (fst km + 0)) (snd km + {#x#}) (fadd v x)"
    using Cons.hyps(1) sum_tree.leaf by (rule sum_tree.node)
  with k blk have "acc_trees ((Suc (fst km), snd km + {#x#}) # kms') (map2 fadd (v # r) blk)
      \<and> sum_list (map snd ((Suc (fst km), snd km + {#x#}) # kms')) = sum_list (map snd (km # kms)) + mset blk
      \<and> sum_list (map fst ((Suc (fst km), snd km + {#x#}) # kms')) = sum_list (map fst (km # kms)) + length blk"
    by (simp add: ac_simps)
  then show ?case by (rule exI)
qed

lemma pw_blocks_trees:
  assumes "acc_trees kms r" "length r = 8"
  shows "\<exists>kms'. acc_trees kms' (fst (pw_blocks r xs)) \<and> length (fst (pw_blocks r xs)) = 8
           \<and> sum_list (map snd kms') + mset (snd (pw_blocks r xs)) = sum_list (map snd kms) + mset xs
           \<and> sum_list (map fst kms') + length (snd (pw_blocks r xs)) = sum_list (map fst kms) + length xs"
  using assms
proof (induction r xs arbitrary: kms rule: pw_blocks.induct)
  case (1 r xs)
  show ?case
  proof (cases "8 \<le> length xs")
    case False
    with "1.prems" have "acc_trees kms (fst (pw_blocks r xs)) \<and> length (fst (pw_blocks r xs)) = 8
           \<and> sum_list (map snd kms) + mset (snd (pw_blocks r xs)) = sum_list (map snd kms) + mset xs
           \<and> sum_list (map fst kms) + length (snd (pw_blocks r xs)) = sum_list (map fst kms) + length xs"
      by (subst (1 2 3 4) pw_blocks.simps) simp
    then show ?thesis by (rule exI)
  next
    case True
    then have lb: "length (take 8 xs) = length r" using "1.prems"(2) by simp
    from add_block_trees [OF "1.prems"(1) lb] obtain kms1 where
      k1: "acc_trees kms1 (map2 fadd r (take 8 xs))"
          "sum_list (map snd kms1) = sum_list (map snd kms) + mset (take 8 xs)"
          "sum_list (map fst kms1) = sum_list (map fst kms) + length (take 8 xs)"
      by blast
    have l1: "length (map2 fadd r (take 8 xs)) = 8" using lb "1.prems"(2) by simp
    from "1.IH" [OF True k1(1) l1] obtain kms' where
      k': "acc_trees kms' (fst (pw_blocks (map2 fadd r (take 8 xs)) (drop 8 xs)))"
          "length (fst (pw_blocks (map2 fadd r (take 8 xs)) (drop 8 xs))) = 8"
          "sum_list (map snd kms') + mset (snd (pw_blocks (map2 fadd r (take 8 xs)) (drop 8 xs)))
             = sum_list (map snd kms1) + mset (drop 8 xs)"
          "sum_list (map fst kms') + length (snd (pw_blocks (map2 fadd r (take 8 xs)) (drop 8 xs)))
             = sum_list (map fst kms1) + length (drop 8 xs)"
      by blast
    have pw: "pw_blocks r xs = pw_blocks (map2 fadd r (take 8 xs)) (drop 8 xs)"
      using True by (subst pw_blocks.simps) simp
    have m: "mset (take 8 xs) + mset (drop 8 xs) = mset xs"
      by (simp flip: mset_append)
    have n: "length (take 8 xs) + length (drop 8 xs) = length xs"
      by simp
    have "acc_trees kms' (fst (pw_blocks r xs)) \<and> length (fst (pw_blocks r xs)) = 8
           \<and> sum_list (map snd kms') + mset (snd (pw_blocks r xs)) = sum_list (map snd kms) + mset xs
           \<and> sum_list (map fst kms') + length (snd (pw_blocks r xs)) = sum_list (map fst kms) + length xs"
      unfolding pw using k' k1(2,3) m n by (simp add: ac_simps)
    then show ?thesis by (rule exI)
  qed
qed

lemma length8_cases:
  assumes "length r = 8"
  obtains r0 r1 r2 r3 r4 r5 r6 r7 where "r = [r0, r1, r2, r3, r4, r5, r6, r7]"
  using assms by (auto simp: eval_nat_numeral length_Suc_conv)

lemma combine8_tree:
  assumes "acc_trees kms r" "length r = 8"
  shows "sum_tree (sum_list (map fst kms) + 7) (sum_list (map snd kms)) (combine8 r)"
proof -
  from assms(2) obtain r0 r1 r2 r3 r4 r5 r6 r7 where r: "r = [r0, r1, r2, r3, r4, r5, r6, r7]"
    by (rule length8_cases)
  from assms(1) have "length kms = 8" using assms(2) by (simp add: list_all2_lengthD)
  then obtain c0 c1 c2 c3 c4 c5 c6 c7 where c: "kms = [c0, c1, c2, c3, c4, c5, c6, c7]"
    by (rule length8_cases)
  from assms(1) have t:
    "sum_tree (fst c0) (snd c0) r0" "sum_tree (fst c1) (snd c1) r1"
    "sum_tree (fst c2) (snd c2) r2" "sum_tree (fst c3) (snd c3) r3"
    "sum_tree (fst c4) (snd c4) r4" "sum_tree (fst c5) (snd c5) r5"
    "sum_tree (fst c6) (snd c6) r6" "sum_tree (fst c7) (snd c7) r7"
    unfolding r c by simp_all
  note n01 = sum_tree.node [OF t(1) t(2)]
  note n23 = sum_tree.node [OF t(3) t(4)]
  note n45 = sum_tree.node [OF t(5) t(6)]
  note n67 = sum_tree.node [OF t(7) t(8)]
  note n03 = sum_tree.node [OF n01 n23]
  note n47 = sum_tree.node [OF n45 n67]
  note all = sum_tree.node [OF n03 n47]
  have k: "Suc (Suc (Suc (fst c0 + fst c1) + Suc (fst c2 + fst c3)) +
                 Suc (Suc (fst c4 + fst c5) + Suc (fst c6 + fst c7)))
           = sum_list (map fst kms) + 7"
    unfolding c by simp
  have m: "snd c0 + snd c1 + (snd c2 + snd c3) + (snd c4 + snd c5 + (snd c6 + snd c7))
           = sum_list (map snd kms)"
    unfolding c by (simp add: ac_simps)
  from all show ?thesis unfolding k m r by simp
qed

lemma leaves_trees: "acc_trees (map (\<lambda>x. (0, {#x#})) xs) xs"
  by (induction xs) (auto intro: sum_tree.leaf)

lemma sum_list_leaves:
  "sum_list (map snd (map (\<lambda>x. (0::nat, {#x#})) xs)) = mset xs"
  "sum_list (map fst (map (\<lambda>x. (0::nat, {#x#})) xs)) = 0"
  by (induction xs) auto

lemma pairwise_sum_tree:
  "\<exists>k. sum_tree k (mset xs) (pairwise_sum xs) \<and> (k < 2 * length xs \<or> (xs = [] \<and> k = 0))"
proof (induction xs rule: pairwise_sum.induct)
  case (1 xs)
  show ?case
  proof (cases "length xs < 8")
    case True
    have "sum_tree (0 + length xs) ({#} + mset xs) (foldl fadd (Fin 0) xs)"
      using sum_tree.zero by (rule foldl_tree)
    with True have "sum_tree (length xs) (mset xs) (pairwise_sum xs)
        \<and> (length xs < 2 * length xs \<or> (xs = [] \<and> length xs = 0))"
      by (subst pairwise_sum.simps) auto
    then show ?thesis by (rule exI)
  next
    case False
    show ?thesis
    proof (cases "length xs \<le> 128")
      case True
      let ?r0 = "take 8 xs" and ?tl = "drop 8 xs"
      let ?kms0 = "map (\<lambda>x. (0::nat, {#x#})) ?r0"
      have l0: "length ?r0 = 8" using False by simp
      from pw_blocks_trees [OF leaves_trees l0, of ?tl] obtain kms' where
        k: "acc_trees kms' (fst (pw_blocks ?r0 ?tl))" "length (fst (pw_blocks ?r0 ?tl)) = 8"
           "sum_list (map snd kms') + mset (snd (pw_blocks ?r0 ?tl)) = sum_list (map snd ?kms0) + mset ?tl"
           "sum_list (map fst kms') + length (snd (pw_blocks ?r0 ?tl)) = sum_list (map fst ?kms0) + length ?tl"
        by blast
      let ?r = "fst (pw_blocks ?r0 ?tl)" and ?rest = "snd (pw_blocks ?r0 ?tl)"
      from foldl_tree [OF combine8_tree [OF k(1,2)], of ?rest]
      have t: "sum_tree (sum_list (map fst kms') + 7 + length ?rest)
                 (sum_list (map snd kms') + mset ?rest) (foldl fadd (combine8 ?r) ?rest)" .
      have td: "mset (take 8 xs) + mset (drop 8 xs) = mset xs"
        by (simp flip: mset_append)
      have m: "sum_list (map snd kms') + mset ?rest = mset xs"
        using k(3) td unfolding sum_list_leaves by simp
      have c: "sum_list (map fst kms') + 7 + length ?rest = length xs - 1"
        using k(4) False unfolding sum_list_leaves by simp
      have p: "pairwise_sum xs = foldl fadd (combine8 ?r) ?rest"
        using False True by (subst pairwise_sum.simps) (simp add: case_prod_beta)
      from t have "sum_tree (length xs - 1) (mset xs) (pairwise_sum xs)"
        unfolding m c p .
      moreover have "length xs - 1 < 2 * length xs" using False by simp
      ultimately have "sum_tree (length xs - 1) (mset xs) (pairwise_sum xs)
          \<and> (length xs - 1 < 2 * length xs \<or> (xs = [] \<and> length xs - 1 = 0))" by simp
      then show ?thesis by (rule exI)
    next
      case big: False
      let ?h = "half8 (length xs)"
      have h: "0 < ?h" "?h < length xs" using big by (auto simp: half8_def)
      from "1.IH"(1) [OF False big] obtain k1 where
        k1: "sum_tree k1 (mset (take ?h xs)) (pairwise_sum (take ?h xs))"
            "k1 < 2 * length (take ?h xs) \<or> (take ?h xs = [] \<and> k1 = 0)"
        by blast
      from "1.IH"(2) [OF False big] obtain k2 where
        k2: "sum_tree k2 (mset (drop ?h xs)) (pairwise_sum (drop ?h xs))"
            "k2 < 2 * length (drop ?h xs) \<or> (drop ?h xs = [] \<and> k2 = 0)"
        by blast
      have p: "pairwise_sum xs = fadd (pairwise_sum (take ?h xs)) (pairwise_sum (drop ?h xs))"
        using False big by (subst pairwise_sum.simps) simp
      have m: "mset (take ?h xs) + mset (drop ?h xs) = mset xs"
        by (simp flip: mset_append)
      from sum_tree.node [OF k1(1) k2(1)] have "sum_tree (Suc (k1 + k2)) (mset xs) (pairwise_sum xs)"
        unfolding m p .
      moreover from k1(2) k2(2) h have "Suc (k1 + k2) < 2 * length xs" by auto
      ultimately have "sum_tree (Suc (k1 + k2)) (mset xs) (pairwise_sum xs)
          \<and> (Suc (k1 + k2) < 2 * length xs \<or> (xs = [] \<and> Suc (k1 + k2) = 0))" by simp
      then show ?thesis by (rule exI)
    qed
  qed
qed

lemma np_sum_tree: "\<exists>k. sum_tree k (mset xs) (np_sum xs) \<and> k \<le> 2 * length xs"
proof -
  from pairwise_sum_tree [of xs] obtain k where
    k: "sum_tree k (mset xs) (pairwise_sum xs)" "k < 2 * length xs \<or> (xs = [] \<and> k = 0)"
    by blast
  show ?thesis
  proof (cases "xs = []")
    case True
    have "np_sum [] = Fin 0" by (simp add: np_sum_def pairwise_sum.simps)
    with True sum_tree.zero show ?thesis by auto
  next
    case False
    from sum_tree.node [OF sum_tree.zero k(1)] have "sum_tree (Suc k) (mset xs) (np_sum xs)"
      by (simp add: np_sum_def)
    moreover from k(2) False have "Suc k \<le> 2 * length xs" by simp
    ultimately show ?thesis by blast
  qed
qed

lemma np_sum_closed:
  assumes "\<forall>x\<in>set xs. P x" and "P (Fin 0)" and "\<And>x y. P x \<Longrightarrow> P y \<Longrightarrow> P (fadd x y)"
  shows "P (np_sum xs)"
proof -
  from np_sum_tree [of xs] obtain k where t: "sum_tree k (mset xs) (np_sum xs)" by blast
  have a: "\<forall>x\<in>#mset xs. P x" using assms(1) by simp
  show ?thesis by (rule sum_tree_closed [where P = P, OF t a assms(2)]) (rule assms(3))
qed

lemma np_sum_absorbs:
  assumes "x \<in> set xs" and "Q x" and "\<And>x y. Q x \<or> Q y \<Longrightarrow> Q (fadd x y)"
  shows "Q (np_sum xs)"
proof -
  from np_sum_tree [of xs] obtain k where t: "sum_tree k (mset xs) (np_sum xs)" by blast
  have a: "x \<in># mset xs" using assms(1) by simp
  show ?thesis by (rule sum_tree_absorbs [where Q = Q, OF t a assms(2)]) (rule assms(3))
qed

lemma np_sum_finite_elements:
  assumes "np_sum xs = Fin t" "x \<in> set xs"
  shows "\<exists>q. x = Fin q"
proof (rule ccontr)
  assume n: "\<nexists>q. x = Fin q"
  have "\<nexists>q. np_sum xs = Fin q"
    using assms(2) n
  proof (rule np_sum_absorbs [where Q = "\<lambda>v. \<nexists>q. v = Fin q"])
    fix a b assume "(\<nexists>q. a = Fin q) \<or> (\<nexists>q. b = Fin q)"
    then show "\<nexists>q. fadd a b = Fin q" by (auto dest: fadd_eq_Fin)
  qed
  with assms(1) show False by simp
qed

lemma np_sum_NaN:
  assumes "NaN \<in> set xs"
  shows "np_sum xs = NaN"
  using assms
proof (rule np_sum_absorbs [where Q = "\<lambda>v. v = NaN"])
  show "NaN = NaN" ..
next
  fix a b :: npfloat assume "a = NaN \<or> b = NaN"
  then show "fadd a b = NaN" by auto
qed

lemma np_sum_zero_nan:
  assumes "\<forall>x\<in>set u. x = Fin 0 \<or> x = NaN"
  shows "np_sum u = Fin 0 \<or> np_sum u = NaN"
  using assms
proof (rule np_sum_closed [where P = "\<lambda>v. v = Fin 0 \<or> v = NaN"])
  show "Fin 0 = Fin 0 \<or> Fin 0 = NaN" by simp
next
  fix a b :: npfloat assume "a = Fin 0 \<or> a = NaN" "b = Fin 0 \<or> b = NaN"
  then show "fadd a b = Fin 0 \<or> fadd a b = NaN" by auto
qed

lemma np_sum_all_zero:
  assumes "\<forall>x\<in>set u. x = Fin 0"
  shows "np_sum u = Fin 0"
  using assms
proof (rule np_sum_closed [where P = "\<lambda>v. v = Fin 0"])
  show "Fin 0 = Fin 0" ..
next
  fix a b :: npfloat assume "a = Fin 0" "b = Fin 0"
  then show "fadd a b = Fin 0" by simp
qed

lemma update_Inr_posteriors:
  assumes "update e l = (Inr q, e')"
  shows "\<exists>u. np_mul (last (posteriors e)) l = Inr u \<and> q = np_div u (np_sum u) \<and>
             e' = e\<lparr>posteriors := posteriors e @ [q]\<rparr> \<and> posteriors e \<noteq> []"
  using assms
  by (auto simp: update_def Let_def split: if_splits sum.splits)

lemma update_same_length:
  assumes "posteriors e \<noteq> []" "length l = length (last (posteriors e))"
  shows "update e l =
     (Inr (np_div (map2 fmul (last (posteriors e)) l) (np_sum (map2 fmul (last (posteriors e)) l))),
      e\<lparr>posteriors := posteriors e @
          [np_div (map2 fmul (last (posteriors e)) l) (np_sum (map2 fmul (last (posteriors e)) l))]\<rparr>)"
  using assms by (simp add: update_def np_mul_def Let_def)

lemma update_eval:
  assumes "posteriors e = ps" "ps \<noteq> []" "np_mul (last ps) l = Inr u" "np_div u (np_sum u) = q"
  shows "update e l = (Inr q, e\<lparr>posteriors := ps @ [q]\<rparr>)"
  using assms by (simp add: update_def Let_def)

lemma update_Inr_length:
  "update e l = (Inr q, e') \<Longrightarrow> length (posteriors e') = Suc (length (posteriors e))"
  by (auto dest: update_Inr_posteriors)

lemma run_updates_length:
  "run_updates e ls = Inr e' \<Longrightarrow> length (posteriors e') = length (posteriors e) + length ls"
proof (induction ls arbitrary: e)
  case Nil
  then show ?case by simp
next
  case (Cons l ls)
  obtain r e1 where u: "update e l = (r, e1)" by (cases "update e l")
  with Cons.prems obtain q where r: "r = Inr q" and rest: "run_updates e1 ls = Inr e'"
    by (cases r) auto
  from u r have "length (posteriors e1) = Suc (length (posteriors e))"
    by (simp add: update_Inr_length)
  with Cons.IH [OF rest] show ?case by simp
qed

lemma normalizable_update:
  assumes "normalizable e l"
  shows "\<exists>u. np_mul (last (posteriors e)) l = Inr u \<and> finite_nonzero (np_sum u) \<and>
             update e l = (Inr (np_div u (np_sum u)),
                           e\<lparr>posteriors := posteriors e @ [np_div u (np_sum u)]\<rparr>)"
  using assms
  by (auto simp: normalizable_def update_def Let_def split: sum.splits)

lemma fmul_zero_cases: "fmul p (Fin 0) = Fin 0 \<or> fmul p (Fin 0) = NaN"
  by (cases p) (auto simp: signed_inf_def)

lemma fdiv_zero_nan:
  "x = Fin 0 \<or> x = NaN \<Longrightarrow> s = Fin 0 \<or> s = NaN \<Longrightarrow> fdiv x s = NaN"
  by (auto simp: signed_inf_def)

lemma map2_zero_likelihood:
  assumes "\<forall>x\<in>set l. x = Fin 0"
  shows "\<forall>x\<in>set (map2 fmul p l). x = Fin 0 \<or> x = NaN"
proof
  fix x assume "x \<in> set (map2 fmul p l)"
  then obtain a b where "(a, b) \<in> set (zip p l)" "x = fmul a b" by auto
  moreover then have "b = Fin 0" using assms by (auto dest: set_zip_rightD)
  ultimately show "x = Fin 0 \<or> x = NaN" using fmul_zero_cases [of a] by simp
qed

lemma np_div_all_nan:
  assumes "\<forall>x\<in>set u. x = Fin 0 \<or> x = NaN"
  shows "np_div u (np_sum u) = replicate (length u) NaN"
proof -
  have "fdiv x (np_sum u) = NaN" if "x \<in> set u" for x
    using that assms np_sum_zero_nan [OF assms] fdiv_zero_nan by blast
  then show ?thesis
    by (simp add: np_div_def map_replicate_const [symmetric] cong: map_cong)
qed

lemma np_sum_all_zero_products:
  assumes "np_sum (map (\<lambda>y. fmul (Fin 0) y) l) = Fin t"
  shows "t = 0"
proof -
  have "\<forall>x\<in>set (map (\<lambda>y. fmul (Fin 0) y) l). x = Fin 0"
  proof
    fix x assume x: "x \<in> set (map (\<lambda>y. fmul (Fin 0) y) l)"
    from np_sum_finite_elements [OF assms x] obtain q where q: "x = Fin q" by blast
    from x obtain y where "x = fmul (Fin 0) y" by auto
    with q fmul_zero_finite [of y q] show "x = Fin 0" by simp
  qed
  from np_sum_all_zero [OF this] assms show ?thesis by simp
qed

lemma np_sum_nth_finite:
  "np_sum u = Fin t \<Longrightarrow> i < length u \<Longrightarrow> \<exists>c. u ! i = Fin c"
  by (auto intro: np_sum_finite_elements)

lemma zero_stays_zero:
  assumes n: "normalizable e l"
    and i: "i < length (last (posteriors e))"
    and z: "last (posteriors e) ! i = Fin 0"
    and u: "np_mul (last (posteriors e)) l = Inr u"
  shows "i < length (np_div u (np_sum u)) \<and> np_div u (np_sum u) ! i = Fin 0"
proof -
  let ?P = "last (posteriors e)"
  from n u obtain t where t: "np_sum u = Fin t" "t \<noteq> 0"
    by (cases "np_sum u") (auto simp: normalizable_def)
  have "i < length u \<and> (\<exists>y. u ! i = fmul (Fin 0) y)"
  proof (cases "length ?P = length l")
    case True
    with u i z show ?thesis by (auto simp: np_mul_def)
  next
    case False
    show ?thesis
    proof (cases "length l = 1")
      case True
      with False u i z show ?thesis by (auto simp: np_mul_def)
    next
      case l1: False
      with False u have one: "length ?P = 1" and ueq: "u = map (\<lambda>y. fmul (hd ?P) y) l"
        by (auto simp: np_mul_def split: if_splits)
      from one i z have "hd ?P = Fin 0"
        by (cases ?P) auto
      with ueq t np_sum_all_zero_products [of l t] show ?thesis by simp
    qed
  qed
  then obtain y where iu: "i < length u" and y: "u ! i = fmul (Fin 0) y" by blast
  from np_sum_nth_finite [OF t(1) iu] obtain c where c: "u ! i = Fin c" by blast
  with y fmul_zero_finite [of y c] have "u ! i = Fin 0" by simp
  with iu t show ?thesis by (simp add: np_div_def)
qed

lemma updates_succeed_zero:
  "updates_succeed e ls \<Longrightarrow> i < length (last (posteriors e)) \<Longrightarrow> last (posteriors e) ! i = Fin 0 \<Longrightarrow>
     \<exists>new. run_updates e ls = Inr (e\<lparr>posteriors := posteriors e @ new\<rparr>) \<and>
           length new = length ls \<and> (\<forall>q\<in>set new. i < length q \<and> q ! i = Fin 0)"
proof (induction ls arbitrary: e)
  case Nil
  then show ?case by simp
next
  case (Cons l ls)
  then have n: "normalizable e l" and r: "updates_succeed (snd (update e l)) ls" by auto
  from normalizable_update [OF n] obtain u where
    u: "np_mul (last (posteriors e)) l = Inr u"
       "update e l = (Inr (np_div u (np_sum u)), e\<lparr>posteriors := posteriors e @ [np_div u (np_sum u)]\<rparr>)"
    by blast
  let ?q = "np_div u (np_sum u)"
  let ?e1 = "e\<lparr>posteriors := posteriors e @ [?q]\<rparr>"
  from zero_stays_zero [OF n Cons.prems(2,3) u(1)]
  have q: "i < length ?q" "?q ! i = Fin 0" by simp_all
  from u r have ok: "updates_succeed ?e1 ls" by simp
  from q have "i < length (last (posteriors ?e1))" "last (posteriors ?e1) ! i = Fin 0" by simp_all
  from Cons.IH [OF ok this] obtain new where
    new: "run_updates ?e1 ls = Inr (?e1\<lparr>posteriors := posteriors ?e1 @ new\<rparr>)"
         "length new = length ls" "\<forall>q\<in>set new. i < length q \<and> q ! i = Fin 0"
    by blast
  have "run_updates e (l # ls) = Inr (e\<lparr>posteriors := posteriors e @ (?q # new)\<rparr>)"
    using u(2) new(1) by simp
  moreover have "length (?q # new) = length (l # ls)" using new(2) by simp
  moreover have "\<forall>q\<in>set (?q # new). i < length q \<and> q ! i = Fin 0"
    using new(3) q by simp
  ultimately show ?case by blast
qed


lemma prior_uniform2:
  "posteriors (BayesianEstimation [Fin 0, Fin 1] (randint_pmf 0 2)) = [[Fin (1 / 2), Fin (1 / 2)]]"
  by code_simp

lemma prior_uniform4:
  "posteriors (BayesianEstimation [Fin 0, Fin 1, Fin 2, Fin 3] (randint_pmf 0 4))
     = [[Fin (1 / 4), Fin (1 / 4), Fin (1 / 4), Fin (1 / 4)]]"
  by code_simp

lemma prior_zero_first:
  "posteriors (BayesianEstimation [Fin 0, Fin 1, Fin 2] (randint_pmf 1 3))
     = [[Fin 0, Fin (1 / 2), Fin (1 / 2)]]"
  by code_simp

lemma update_uniform2_13:
  "update (BayesianEstimation [Fin 0, Fin 1] (randint_pmf 0 2)) [Fin 1, Fin 3] =
     (Inr [Fin (1 / 4), Fin (3 / 4)],
      (BayesianEstimation [Fin 0, Fin 1] (randint_pmf 0 2))
        \<lparr>posteriors := [[Fin (1 / 2), Fin (1 / 2)], [Fin (1 / 4), Fin (3 / 4)]]\<rparr>)"
proof -
  have m: "np_mul (last [[Fin (1 / 2), Fin (1 / 2)]]) [Fin 1, Fin 3] = Inr [Fin (1 / 2), Fin (3 / 2)]"
    by code_simp
  have d: "np_div [Fin (1 / 2), Fin (3 / 2)] (np_sum [Fin (1 / 2), Fin (3 / 2)])
           = [Fin (1 / 4), Fin (3 / 4)]"
    by code_simp
  from update_eval [OF prior_uniform2 _ m d] show ?thesis by simp
qed

lemma update_second_11:
  assumes "posteriors e = [[Fin (1 / 2), Fin (1 / 2)], [Fin (1 / 4), Fin (3 / 4)]]"
  shows "update e [Fin 1, Fin 1] =
     (Inr [Fin (1 / 4), Fin (3 / 4)],
      e\<lparr>posteriors := [[Fin (1 / 2), Fin (1 / 2)], [Fin (1 / 4), Fin (3 / 4)],
                       [Fin (1 / 4), Fin (3 / 4)]]\<rparr>)"
proof -
  have m: "np_mul (last [[Fin (1 / 2), Fin (1 / 2)], [Fin (1 / 4), Fin (3 / 4)]]) [Fin 1, Fin 1]
           = Inr [Fin (1 / 4), Fin (3 / 4)]"
    by code_simp
  have d: "np_div [Fin (1 / 4), Fin (3 / 4)] (np_sum [Fin (1 / 4), Fin (3 / 4)])
           = [Fin (1 / 4), Fin (3 / 4)]"
    by code_simp
  from update_eval [OF assms _ m d] show ?thesis by simp
qed



lemma tenth_running_sums:
  "fadd (Fin 0) (double (1 / 10)) = Fin (3602879701896397 / 36028797018963968)"
  "fadd (Fin (3602879701896397 / 36028797018963968)) (double (1 / 10)) = Fin (3602879701896397 / 18014398509481984)"
  "fadd (Fin (3602879701896397 / 18014398509481984)) (double (1 / 10)) = Fin (1351079888211149 / 4503599627370496)"
  "fadd (Fin (1351079888211149 / 4503599627370496)) (double (1 / 10)) = Fin (3602879701896397 / 9007199254740992)"
  "fadd (Fin (3602879701896397 / 9007199254740992)) (double (1 / 10)) = Fin (1 / 2)"
  "fadd (Fin (1 / 2)) (double (1 / 10)) = Fin (5404319552844595 / 9007199254740992)"
  "fadd (Fin (5404319552844595 / 9007199254740992)) (double (1 / 10)) = Fin (3152519739159347 / 4503599627370496)"
  "fadd (Fin (3152519739159347 / 4503599627370496)) (double (1 / 10)) = Fin (7205759403792793 / 9007199254740992)"
  "fadd (Fin (7205759403792793 / 9007199254740992)) (double (1 / 10)) = Fin (2026619832316723 / 2251799813685248)"
  "fadd (Fin (2026619832316723 / 2251799813685248)) (double (1 / 10)) = Fin (9007199254740991 / 9007199254740992)"
  by code_simp+

lemma quantile_targets:
  "double (5 / 100) = Fin (3602879701896397 / 72057594037927936)"
  "double (95 / 100) = Fin (4278419646001971 / 4503599627370496)"
  "double (8 / 10) = Fin (3602879701896397 / 4503599627370496)"
  by code_simp+

lemma fdiv_NaN_right [simp]: "fdiv x NaN = NaN"
  by (cases x) auto

lemma fmul_NaN_right [simp]: "fmul x NaN = NaN"
  by (cases x) auto

lemma fadd_not_NaN: "fadd x y \<noteq> NaN \<Longrightarrow> y \<noteq> NaN"
  by (cases x) auto

lemma fge_not_NaN: "fge x p \<Longrightarrow> x \<noteq> NaN"
  by (cases x) auto

lemma get_quantile_loop_result:
  assumes "col_hypos \<noteq> col_probs" "length hyps = length probs"
    and "\<forall>i<length hyps. hyps ! i = NaN \<longrightarrow> probs ! i = NaN"
  shows "\<exists>r. get_quantile_loop (map2 (\<lambda>h pr. [col_hypos \<mapsto> h, col_probs \<mapsto> pr]) hyps probs)
           col_probs col_hypos p acc = Inr r
         \<and> (if scan_reaches probs p acc then r \<in> set hyps \<and> r \<noteq> NaN else r = NaN)"
  using assms(2,3)
proof (induction hyps probs arbitrary: acc rule: list_induct2)
  case Nil
  then show ?case by simp
next
  case (Cons h hyps pr probs)
  have rows: "\<forall>i<length hyps. hyps ! i = NaN \<longrightarrow> probs ! i = NaN"
  proof (intro allI impI)
    fix i assume "i < length hyps" "hyps ! i = NaN"
    with Cons.prems have "(pr # probs) ! Suc i = NaN" by (metis Suc_less_eq length_Cons nth_Cons_Suc)
    then show "probs ! i = NaN" by simp
  qed
  show ?case
  proof (cases "fge (fadd acc pr) p")
    case True
    then have "fadd acc pr \<noteq> NaN" by (rule fge_not_NaN)
    then have "pr \<noteq> NaN" by (rule fadd_not_NaN)
    with Cons.prems have "h \<noteq> NaN" by auto
    with True assms(1) show ?thesis by simp
  next
    case False
    from Cons.IH [OF rows, of "fadd acc pr"] obtain r where
      r: "get_quantile_loop (map2 (\<lambda>h pr. [col_hypos \<mapsto> h, col_probs \<mapsto> pr]) hyps probs)
           col_probs col_hypos p (fadd acc pr) = Inr r"
         "if scan_reaches probs p (fadd acc pr) then r \<in> set hyps \<and> r \<noteq> NaN else r = NaN"
      by blast
    from False assms(1) r(1) have
      "get_quantile_loop (map2 (\<lambda>h pr. [col_hypos \<mapsto> h, col_probs \<mapsto> pr]) (h # hyps) (pr # probs))
           col_probs col_hypos p acc = Inr r"
      by simp
    moreover from False r(2) have
      "if scan_reaches (pr # probs) p acc then r \<in> set (h # hyps) \<and> r \<noteq> NaN else r = NaN"
      by (simp split: if_splits)
    ultimately show ?thesis by blast
  qed
qed

lemma np_mul_length_cases:
  assumes "np_mul a b = Inr u"
  shows "(length u = length a \<and> (\<forall>i<length a. \<exists>y. u ! i = fmul (a ! i) y))
         \<or> (length a = 1 \<and> length b \<noteq> 1 \<and> length u = length b)"
proof (cases "length a = length b")
  case True
  with assms show ?thesis by (auto simp: np_mul_def)
next
  case False
  with assms show ?thesis by (auto simp: np_mul_def split: if_splits)
qed

lemma update_keeps_nan_rows:
  assumes u: "update e l = (Inr q, e')"
    and rows: "\<forall>d\<in>set (posteriors e). length d = length H \<longrightarrow> (\<forall>i<length H. H ! i = NaN \<longrightarrow> d ! i = NaN)"
    and len: "length (last (posteriors e)) \<noteq> length H \<longrightarrow> length H = 1"
  shows "(\<forall>d\<in>set (posteriors e'). length d = length H \<longrightarrow> (\<forall>i<length H. H ! i = NaN \<longrightarrow> d ! i = NaN))
         \<and> (length (last (posteriors e')) \<noteq> length H \<longrightarrow> length H = 1)
         \<and> hypotheses e' = hypotheses e"
proof -
  from update_Inr_posteriors [OF u] obtain v where
    v: "np_mul (last (posteriors e)) l = Inr v" "q = np_div v (np_sum v)"
       "e' = e\<lparr>posteriors := posteriors e @ [q]\<rparr>" "posteriors e \<noteq> []"
    by blast
  let ?P = "last (posteriors e)"
  have lq: "length q = length v" using v(2) by (simp add: np_div_def)
  have P_in: "?P \<in> set (posteriors e)" using v(4) by simp
  have new: "\<forall>i<length H. H ! i = NaN \<longrightarrow> q ! i = NaN" if qH: "length q = length H"
  proof (intro allI impI)
    fix i assume i: "i < length H" "H ! i = NaN"
    from np_mul_length_cases [OF v(1)] have "length v = length ?P \<and> (\<forall>i<length ?P. \<exists>y. v ! i = fmul (?P ! i) y)"
    proof
      assume "length v = length ?P \<and> (\<forall>i<length ?P. \<exists>y. v ! i = fmul (?P ! i) y)"
      then show ?thesis .
    next
      assume b: "length ?P = 1 \<and> length l \<noteq> 1 \<and> length v = length l"
      show ?thesis
      proof (cases "length ?P = length H")
        case True
        with b qH lq show ?thesis by simp
      next
        case False
        with len have "length H = 1" by simp
        with b False show ?thesis by simp
      qed
    qed
    then have lv: "length v = length ?P" and prod: "\<forall>i<length ?P. \<exists>y. v ! i = fmul (?P ! i) y"
      by simp_all
    from lv lq qH have PH: "length ?P = length H" by simp
    with rows P_in i have "?P ! i = NaN" by blast
    with prod i PH have "v ! i = NaN" by auto
    moreover from i PH lv have iv: "i < length v" by simp
    ultimately have "NaN \<in> set v" by (metis nth_mem)
    then have "np_sum v = NaN" by (rule np_sum_NaN)
    with v(2) iv show "q ! i = NaN" by (simp add: np_div_def)
  qed
  have third: "length H = 1" if "length q \<noteq> length H"
  proof (cases "length ?P = length H")
    case False
    with len show ?thesis by simp
  next
    case True
    from np_mul_length_cases [OF v(1)] that lq True show ?thesis by auto
  qed
  from v(3) rows new third show ?thesis by auto
qed

lemma run_updates_keeps_nan_rows:
  assumes "run_updates e ls = Inr e'"
    and "\<forall>d\<in>set (posteriors e). length d = length H \<longrightarrow> (\<forall>i<length H. H ! i = NaN \<longrightarrow> d ! i = NaN)"
    and "length (last (posteriors e)) \<noteq> length H \<longrightarrow> length H = 1"
  shows "(\<forall>d\<in>set (posteriors e'). length d = length H \<longrightarrow> (\<forall>i<length H. H ! i = NaN \<longrightarrow> d ! i = NaN))
         \<and> hypotheses e' = hypotheses e"
  using assms
proof (induction ls arbitrary: e)
  case Nil
  then show ?case by simp
next
  case (Cons l ls)
  obtain r e1 where u: "update e l = (r, e1)" by (cases "update e l")
  with Cons.prems(1) obtain q where r: "r = Inr q" and rest: "run_updates e1 ls = Inr e'"
    by (cases r) auto
  from update_keeps_nan_rows [OF u [unfolded r] Cons.prems(2,3)] have
    a: "\<forall>d\<in>set (posteriors e1). length d = length H \<longrightarrow> (\<forall>i<length H. H ! i = NaN \<longrightarrow> d ! i = NaN)"
    and b: "length (last (posteriors e1)) \<noteq> length H \<longrightarrow> length H = 1"
    and c: "hypotheses e1 = hypotheses e"
    by simp_all
  from Cons.IH [OF rest a b] c show ?case by simp
qed

lemma prior_uniform10:
  "posteriors (BayesianEstimation [Fin 1, Fin 2, Fin 3, Fin 4, Fin 5, Fin 6, Fin 7, Fin 8, Fin 9, Fin 10]
                 (randint_pmf 1 11))
   = [[double (1 / 10), double (1 / 10), double (1 / 10), double (1 / 10), double (1 / 10),
       double (1 / 10), double (1 / 10), double (1 / 10), double (1 / 10), double (1 / 10)]]"
  by code_simp

lemma ilog2_bounds:
  assumes "0 < a"
  shows "2 powi ilog2 a \<le> a" and "a < 2 powi (ilog2 a + 1)"
proof -
  have "2 powi ilog2 a \<le> a \<and> a < 2 powi (ilog2 a + 1)"
  proof (cases "1 \<le> a")
    case True
    define n where "n = \<lfloor>a\<rfloor>"
    have n: "0 < n" using True by (simp add: n_def)
    from bitlen_bounds [OF n] have b: "2 ^ nat (bitlen n - 1) \<le> n" "n < 2 ^ nat (bitlen n)"
      by simp_all
    have bl: "1 \<le> bitlen n" using n by (simp add: bitlen_alt_def)
    have e: "ilog2 a = bitlen n - 1" using True by (simp add: ilog2_def n_def)
    have "(2::rat) powi (bitlen n - 1) = of_int (2 ^ nat (bitlen n - 1))"
      using bl by (simp add: power_int_def)
    also have "\<dots> \<le> of_int n" using b(1) by (simp only: of_int_le_iff)
    also have "\<dots> \<le> a" by (simp add: n_def)
    finally have lo: "2 powi ilog2 a \<le> a" by (simp add: e)
    have "a < of_int (n + 1)" unfolding n_def by linarith
    also have "\<dots> \<le> of_int (2 ^ nat (bitlen n))" using b(2) by (simp only: of_int_le_iff)
    also have "\<dots> = (2::rat) powi (bitlen n)" using bl by (simp add: power_int_def)
    finally have "a < 2 powi (ilog2 a + 1)" by (simp add: e)
    with lo show ?thesis by simp
  next
    case False
    define c where "c = \<lceil>1 / a\<rceil>"
    have b1: "1 < 1 / a" using False assms by simp
    then have c2: "2 \<le> c" unfolding c_def by linarith
    then have n: "0 < c - 1" by simp
    define k where "k = bitlen (c - 1)"
    from bitlen_bounds [OF n] have b: "2 ^ nat (k - 1) \<le> c - 1" "c - 1 < 2 ^ nat k"
      by (simp_all add: k_def)
    have k1: "1 \<le> k" using n by (simp add: bitlen_alt_def k_def)
    have e: "ilog2 a = - k" using False by (simp add: ilog2_def c_def k_def)
    have "1 / a \<le> of_int c" by (simp add: c_def)
    also have "\<dots> \<le> of_int (2 ^ nat k)" using b(2) by (simp only: of_int_le_iff)
    finally have "1 / a \<le> 2 ^ nat k" by simp
    then have "1 \<le> a * 2 ^ nat k" using assms by (simp add: field_simps)
    then have "1 / 2 ^ nat k \<le> a" by (simp add: field_simps)
    moreover have "(2::rat) powi (- k) = 1 / 2 ^ nat k"
      using k1 by (simp add: power_int_def field_simps)
    ultimately have lo: "2 powi ilog2 a \<le> a" by (simp add: e)
    have "of_int (2 ^ nat (k - 1)) \<le> (of_int (c - 1) :: rat)"
      using b(1) by (simp only: of_int_le_iff)
    also have "(of_int (c - 1) :: rat) < 1 / a" unfolding c_def by linarith
    finally have "2 ^ nat (k - 1) < 1 / a" by simp
    then have "a * 2 ^ nat (k - 1) < 1" using assms by (simp add: field_simps)
    then have "a < 1 / 2 ^ nat (k - 1)" by (simp add: field_simps)
    moreover have "(2::rat) powi (- k + 1) = 1 / 2 ^ nat (k - 1)"
    proof (cases "k = 1")
      case True
      then show ?thesis by simp
    next
      case False
      with k1 have "- k + 1 < 0" by simp
      then have "(2::rat) powi (- k + 1) = inverse 2 ^ nat (k - 1)"
        by (simp add: power_int_def)
      then show ?thesis by (simp add: field_simps power_inverse)
    qed
    ultimately have "a < 2 powi (ilog2 a + 1)" by (simp add: e)
    with lo show ?thesis by simp
  qed
  then show "2 powi ilog2 a \<le> a" and "a < 2 powi (ilog2 a + 1)" by simp_all
qed

lemma rne_error: "\<bar>of_int (rne y) - y\<bar> \<le> 1 / 2"
proof -
  have "0 \<le> y - of_int \<lfloor>y\<rfloor>" "y - of_int \<lfloor>y\<rfloor> < 1" by linarith+
  then show ?thesis by (auto simp: rne_def Let_def abs_le_iff)
qed

lemma rne_nonneg: "0 \<le> y \<Longrightarrow> 0 \<le> rne y"
  by (auto simp: rne_def Let_def)

lemma rne_of_int [simp]: "rne (of_int k) = k"
  by (simp add: rne_def)

lemma round64_pos_unfold:
  assumes "0 < x" "round64 x = Fin r"
  shows "r = of_int (rne (x / 2 powi (max (ilog2 x) (- 1022) - 52))) * 2 powi (max (ilog2 x) (- 1022) - 52)"
  using assms by (auto simp: round64_def Let_def split: if_splits)

lemma round64_abs_error:
  assumes "0 < x" "round64 x = Fin r"
  shows "\<bar>r - x\<bar> \<le> 2 powi (max (ilog2 x) (- 1022) - 52) / 2"
proof -
  define q :: rat where "q = 2 powi (max (ilog2 x) (- 1022) - 52)"
  have q: "0 < q" by (simp add: q_def)
  from round64_pos_unfold [OF assms] have r: "r = of_int (rne (x / q)) * q" by (simp add: q_def)
  have "r - x = (of_int (rne (x / q)) - x / q) * q" using q by (simp add: r field_simps)
  then have "\<bar>r - x\<bar> = \<bar>of_int (rne (x / q)) - x / q\<bar> * q" using q by (simp add: abs_mult)
  also have "\<dots> \<le> 1 / 2 * q" using rne_error [of "x / q"] q by (intro mult_right_mono) simp_all
  finally show ?thesis by (simp add: q_def)
qed

lemma round64_nonneg:
  assumes "0 \<le> x" "round64 x = Fin r"
  shows "0 \<le> r"
proof (cases "x = 0")
  case True
  with assms show ?thesis by simp
next
  case False
  with assms have x: "0 < x" by simp
  from round64_pos_unfold [OF x assms(2)] x show ?thesis
    by (simp add: rne_nonneg)
qed

lemma round64_on_grid:
  assumes "0 \<le> x" "round64 x = Fin r"
  shows "on_grid r"
proof (cases "x = 0")
  case True
  with assms have "r = of_int 0 * 2 powi (- 1074)" by simp
  then show ?thesis unfolding on_grid_def by (rule exI)
next
  case False
  with assms have x: "0 < x" by simp
  define e where "e = max (ilog2 x) (- 1022)"
  have e: "0 \<le> e + 1022" by (simp add: e_def)
  have "(2::rat) powi ((e + 1022) + (- 1074)) = 2 powi (e + 1022) * 2 powi (- 1074)"
    by (rule power_int_add) simp
  moreover have "e + 1022 + (- 1074) = e - 52" by simp
  ultimately have "(2::rat) powi (e - 52) = 2 powi (e + 1022) * 2 powi (- 1074)"
    by (simp only:)
  also have "(2::rat) powi (e + 1022) = of_int (2 ^ nat (e + 1022))"
    using e by (simp add: power_int_def)
  finally have "r = of_int (rne (x / 2 powi (e - 52)) * 2 ^ nat (e + 1022)) * 2 powi (- 1074)"
    using round64_pos_unfold [OF x assms(2)] by (simp add: e_def)
  then show ?thesis unfolding on_grid_def by (rule exI)
qed

lemma round64_rel_error_normal:
  assumes "0 < x" "round64 x = Fin r" "- 1022 \<le> ilog2 x"
  shows "\<bar>r - x\<bar> \<le> x * eps64"
proof -
  from assms(3) have m: "max (ilog2 x) (- 1022) = ilog2 x" by simp
  have "(2::rat) powi (ilog2 x - 52) / 2 = 2 powi ilog2 x * eps64"
    by (simp add: power_int_diff eps64_def)
  also have "\<dots> \<le> x * eps64"
    using ilog2_bounds(1) [OF assms(1)] by (intro mult_right_mono) (simp_all add: eps64_def)
  finally show ?thesis using round64_abs_error [OF assms(1,2)] unfolding m by simp
qed

lemma round64_abs_error_subnormal:
  assumes "0 < x" "round64 x = Fin r" "ilog2 x < - 1022"
  shows "\<bar>r - x\<bar> \<le> eta64"
proof -
  from assms(3) have m: "max (ilog2 x) (- 1022) = - 1022" by simp
  have "(2::rat) powi (- 1022 - 52) / 2 = eta64"
    by (simp add: eta64_def power_int_minus field_simps)
  with round64_abs_error [OF assms(1,2)] show ?thesis unfolding m by simp
qed

lemma round64_error:
  assumes "0 \<le> x" "round64 x = Fin r"
  shows "\<bar>r - x\<bar> \<le> x * eps64 + eta64"
proof (cases "x = 0")
  case True
  with assms show ?thesis by (simp add: eta64_def)
next
  case False
  with assms have x: "0 < x" by simp
  have p: "0 \<le> x * eps64" "0 \<le> eta64" using x by (simp_all add: eps64_def eta64_def)
  show ?thesis
  proof (cases "- 1022 \<le> ilog2 x")
    case True
    from round64_rel_error_normal [OF x assms(2) True] p show ?thesis by linarith
  next
    case False
    then have "ilog2 x < - 1022" by simp
    from round64_abs_error_subnormal [OF x assms(2) this] p show ?thesis by linarith
  qed
qed

lemma round64_exact_subnormal:
  assumes "0 < x" "on_grid x" "ilog2 x < - 1022" "round64 x = Fin r"
  shows "r = x"
proof -
  from assms(3) have m: "max (ilog2 x) (- 1022) = - 1022" by simp
  from assms(2) obtain k :: int where k: "x = of_int k * 2 powi (- 1074)"
    unfolding on_grid_def by blast
  have "x / 2 powi (- 1022 - 52) = of_int k" by (simp add: k)
  with round64_pos_unfold [OF assms(1,4)] show ?thesis unfolding m by (simp add: k)
qed

lemma round64_grid_error:
  assumes "0 \<le> x" "on_grid x" "round64 x = Fin r"
  shows "\<bar>r - x\<bar> \<le> x * eps64"
proof (cases "x = 0")
  case True
  with assms show ?thesis by simp
next
  case False
  with assms have x: "0 < x" by simp
  show ?thesis
  proof (cases "- 1022 \<le> ilog2 x")
    case True
    from round64_rel_error_normal [OF x assms(3) True] show ?thesis .
  next
    case False
    then have "ilog2 x < - 1022" by simp
    from round64_exact_subnormal [OF x assms(2) this assms(3)] x show ?thesis
      by (simp add: eps64_def)
  qed
qed

lemma round64_finite:
  assumes "0 \<le> x" "x < 2 powi 1023"
  shows "\<exists>r. round64 x = Fin r"
proof (cases "x = 0")
  case True
  then show ?thesis by simp
next
  case False
  with assms have x: "0 < x" by simp
  from ilog2_bounds(1) [OF x] assms(2) have "(2::rat) powi ilog2 x < 2 powi 1023"
    by (rule le_less_trans)
  then have "ilog2 x < 1023" by (rule power_int_le_imp_less_exp [rotated]) simp_all
  then show ?thesis using x by (auto simp: round64_def Let_def max_def)
qed

lemma on_grid_add: "on_grid x \<Longrightarrow> on_grid y \<Longrightarrow> on_grid (x + y)"
proof -
  assume "on_grid x" "on_grid y"
  then obtain j k :: int where "x = of_int j * 2 powi (- 1074)" "y = of_int k * 2 powi (- 1074)"
    unfolding on_grid_def by blast
  then have "x + y = of_int (j + k) * 2 powi (- 1074)" by (simp add: algebra_simps)
  then show ?thesis unfolding on_grid_def by (rule exI)
qed

lemma on_grid_zero [simp]: "on_grid 0"
proof -
  have "(0::rat) = of_int 0 * 2 powi (- 1074)" by simp
  then show ?thesis unfolding on_grid_def by (rule exI)
qed

lemma eps64_bounds: "0 < eps64" "eps64 < 1" "0 \<le> 1 - eps64" "1 - eps64 \<le> 1" "1 \<le> 1 + eps64"
  by (simp_all add: eps64_def)

lemma sum_val_nonneg:
  assumes "\<forall>x\<in>#M. \<exists>q. x = Fin q \<and> 0 \<le> q \<and> on_grid q"
  shows "0 \<le> (\<Sum>x\<in>#M. val x)"
  using assms by (induction M) auto

lemma fadd_nonneg_grid:
  assumes "0 \<le> a" "on_grid a" "0 \<le> b" "on_grid b" "fadd (Fin a) (Fin b) = Fin t"
  shows "0 \<le> t" "on_grid t" "(a + b) * (1 - eps64) \<le> t" "t \<le> (a + b) * (1 + eps64)"
proof -
  from assms(5) have r: "round64 (a + b) = Fin t" by simp
  have n: "0 \<le> a + b" using assms by simp
  have g: "on_grid (a + b)" using assms by (simp add: on_grid_add)
  from round64_nonneg [OF n r] show "0 \<le> t" .
  from round64_on_grid [OF n r] show "on_grid t" .
  from round64_grid_error [OF n g r] have "\<bar>t - (a + b)\<bar> \<le> (a + b) * eps64" .
  then show "(a + b) * (1 - eps64) \<le> t" "t \<le> (a + b) * (1 + eps64)"
    by (simp_all add: abs_le_iff algebra_simps)
qed

lemma sum_tree_bounds:
  assumes "sum_tree k M a" "\<forall>x\<in>#M. \<exists>q. x = Fin q \<and> 0 \<le> q \<and> on_grid q" "a = Fin t"
  shows "0 \<le> t \<and> on_grid t
         \<and> (\<Sum>x\<in>#M. val x) * (1 - eps64) ^ k \<le> t \<and> t \<le> (\<Sum>x\<in>#M. val x) * (1 + eps64) ^ k"
  using assms
proof (induction arbitrary: t rule: sum_tree.induct)
  case zero
  then show ?case by simp
next
  case (leaf x)
  then show ?case by auto
next
  case (node j A a k B b)
  from node.prems(2) obtain ta tb where ab: "a = Fin ta" "b = Fin tb"
    by (auto dest: fadd_eq_Fin)
  from node.prems(1) have A: "\<forall>x\<in>#A. \<exists>q. x = Fin q \<and> 0 \<le> q \<and> on_grid q"
    and B: "\<forall>x\<in>#B. \<exists>q. x = Fin q \<and> 0 \<le> q \<and> on_grid q" by auto
  let ?SA = "\<Sum>x\<in>#A. val x" and ?SB = "\<Sum>x\<in>#B. val x"
  let ?p = "1 + eps64" and ?m = "1 - eps64"
  from node.IH(1) [OF A ab(1)] have a: "0 \<le> ta" "on_grid ta" "?SA * ?m ^ j \<le> ta" "ta \<le> ?SA * ?p ^ j"
    by simp_all
  from node.IH(2) [OF B ab(2)] have b: "0 \<le> tb" "on_grid tb" "?SB * ?m ^ k \<le> tb" "tb \<le> ?SB * ?p ^ k"
    by simp_all
  have SA: "0 \<le> ?SA" and SB: "0 \<le> ?SB" using A B by (simp_all add: sum_val_nonneg)
  from node.prems(2) ab have f: "fadd (Fin ta) (Fin tb) = Fin t" by simp
  note r = fadd_nonneg_grid [OF a(1,2) b(1,2) f]
  have pj: "?p ^ j \<le> ?p ^ (j + k)" and pk: "?p ^ k \<le> ?p ^ (j + k)"
    using eps64_bounds by (simp_all add: power_increasing)
  have mj: "?m ^ (j + k) \<le> ?m ^ j" and mk: "?m ^ (j + k) \<le> ?m ^ k"
    using eps64_bounds by (simp_all add: power_decreasing)
  have "ta + tb \<le> ?SA * ?p ^ (j + k) + ?SB * ?p ^ (j + k)"
    using a(4) b(4) mult_left_mono [OF pj SA] mult_left_mono [OF pk SB] by linarith
  then have "(ta + tb) * ?p \<le> ((?SA + ?SB) * ?p ^ (j + k)) * ?p"
    using eps64_bounds by (intro mult_right_mono) (simp_all add: algebra_simps)
  with r(4) have "t \<le> ((?SA + ?SB) * ?p ^ (j + k)) * ?p" by (rule order_trans)
  moreover have "((?SA + ?SB) * ?p ^ (j + k)) * ?p = (?SA + ?SB) * ?p ^ Suc (j + k)" by simp
  ultimately have up: "t \<le> (?SA + ?SB) * ?p ^ Suc (j + k)" by (simp only:)
  have "?SA * ?m ^ (j + k) + ?SB * ?m ^ (j + k) \<le> ta + tb"
    using a(3) b(3) mult_left_mono [OF mj SA] mult_left_mono [OF mk SB] by linarith
  then have "((?SA + ?SB) * ?m ^ (j + k)) * ?m \<le> (ta + tb) * ?m"
    using eps64_bounds by (intro mult_right_mono) (simp_all add: algebra_simps)
  from this r(3) have "((?SA + ?SB) * ?m ^ (j + k)) * ?m \<le> t" by (rule order_trans)
  moreover have "((?SA + ?SB) * ?m ^ (j + k)) * ?m = (?SA + ?SB) * ?m ^ Suc (j + k)" by simp
  ultimately have lo: "(?SA + ?SB) * ?m ^ Suc (j + k) \<le> t" by (simp only:)
  from r(1,2) up lo show ?case by simp
qed

lemma sum_tree_finite:
  assumes "sum_tree k M a" "\<forall>x\<in>#M. \<exists>q. x = Fin q \<and> 0 \<le> q \<and> on_grid q"
    and "(\<Sum>x\<in>#M. val x) * (1 + eps64) ^ k < 2 powi 1023"
  shows "\<exists>t. a = Fin t"
  using assms
proof (induction rule: sum_tree.induct)
  case zero
  then show ?case by simp
next
  case (leaf x)
  then show ?case by auto
next
  case (node j A a k B b)
  from node.prems(1) have A: "\<forall>x\<in>#A. \<exists>q. x = Fin q \<and> 0 \<le> q \<and> on_grid q"
    and B: "\<forall>x\<in>#B. \<exists>q. x = Fin q \<and> 0 \<le> q \<and> on_grid q" by auto
  let ?SA = "\<Sum>x\<in>#A. val x" and ?SB = "\<Sum>x\<in>#B. val x"
  let ?p = "1 + eps64"
  have SA: "0 \<le> ?SA" and SB: "0 \<le> ?SB" using A B by (simp_all add: sum_val_nonneg)
  have pj: "?p ^ j \<le> ?p ^ (j + k)" and pk: "?p ^ k \<le> ?p ^ (j + k)"
    and ps: "?p ^ (j + k) \<le> ?p ^ Suc (j + k)"
    using eps64_bounds by (simp_all add: power_increasing del: power_Suc)
  have p0: "0 \<le> ?p ^ (j + k)" using eps64_bounds by simp
  have S1: "?SA * ?p ^ (j + k) + ?SB * ?p ^ (j + k) \<le> (?SA + ?SB) * ?p ^ Suc (j + k)"
    using mult_left_mono [OF ps SA] mult_left_mono [OF ps SB] by (simp add: algebra_simps del: power_Suc)
  have tot: "(?SA + ?SB) * ?p ^ Suc (j + k) < 2 powi 1023" using node.prems(2) by simp
  have "?SA * ?p ^ j \<le> ?SA * ?p ^ (j + k) + ?SB * ?p ^ (j + k)"
    using mult_left_mono [OF pj SA] SB p0 by (simp add: add_increasing2)
  with S1 tot have "?SA * ?p ^ j < 2 powi 1023" by linarith
  from node.IH(1) [OF A this] obtain ta where ta: "a = Fin ta" by blast
  have "?SB * ?p ^ k \<le> ?SA * ?p ^ (j + k) + ?SB * ?p ^ (j + k)"
    using mult_left_mono [OF pk SB] SA p0 by (simp add: add_increasing)
  with S1 tot have "?SB * ?p ^ k < 2 powi 1023" by linarith
  from node.IH(2) [OF B this] obtain tb where tb: "b = Fin tb" by blast
  from sum_tree_bounds [OF node.hyps(1) A ta] have a: "0 \<le> ta" "ta \<le> ?SA * ?p ^ j" by simp_all
  from sum_tree_bounds [OF node.hyps(2) B tb] have b: "0 \<le> tb" "tb \<le> ?SB * ?p ^ k" by simp_all
  have "ta + tb \<le> ?SA * ?p ^ (j + k) + ?SB * ?p ^ (j + k)"
    using a(2) b(2) mult_left_mono [OF pj SA] mult_left_mono [OF pk SB] by linarith
  with S1 tot have "ta + tb < 2 powi 1023" by linarith
  moreover have "0 \<le> ta + tb" using a(1) b(1) by simp
  ultimately have "\<exists>t. round64 (ta + tb) = Fin t" by (intro round64_finite)
  with ta tb show ?case by simp
qed

lemma bernoulli_rat: "1 - of_nat k * eps64 \<le> (1 - eps64) ^ k"
proof (induction k)
  case 0
  then show ?case by simp
next
  case (Suc k)
  have "1 - of_nat (Suc k) * eps64 \<le> (1 - of_nat k * eps64) * (1 - eps64)"
    using eps64_bounds by (simp add: algebra_simps)
  also have "\<dots> \<le> (1 - eps64) ^ k * (1 - eps64)"
    using Suc eps64_bounds by (intro mult_right_mono) simp_all
  finally show ?case by (simp add: mult.commute)
qed

lemma cK_pos: "0 < cK" "cK \<le> 1"
  by (simp_all add: cK_def eps64_def)

lemma pow_minus_lower:
  assumes "k \<le> 2 ^ 21"
  shows "cK \<le> (1 - eps64) ^ k"
proof -
  have "cK \<le> 1 - of_nat k * eps64"
  proof -
    have "(of_nat k :: rat) \<le> of_nat (2 ^ 21)" using assms by (simp only: of_nat_le_iff)
    then have "(of_nat k :: rat) * eps64 \<le> 2 ^ 21 * eps64"
      using eps64_bounds by (intro mult_right_mono) simp_all
    then show ?thesis by (simp add: cK_def)
  qed
  also have "\<dots> \<le> (1 - eps64) ^ k" by (rule bernoulli_rat)
  finally show ?thesis .
qed

lemma pow_plus_upper:
  assumes "k \<le> 2 ^ 21"
  shows "(1 + eps64) ^ k \<le> 1 / cK"
proof -
  have "(1 + eps64) * (1 - eps64) \<le> 1" using eps64_bounds by (simp add: algebra_simps)
  moreover have "0 \<le> (1 + eps64) * (1 - eps64)" using eps64_bounds by simp
  ultimately have "((1 + eps64) * (1 - eps64)) ^ k \<le> 1" by (rule power_le_one [rotated])
  then have "(1 + eps64) ^ k * (1 - eps64) ^ k \<le> 1" by (simp add: power_mult_distrib)
  moreover have m: "0 < (1 - eps64) ^ k"
    using pow_minus_lower [OF assms] cK_pos by linarith
  ultimately have "(1 + eps64) ^ k \<le> 1 / (1 - eps64) ^ k" by (simp add: field_simps)
  also have "\<dots> \<le> 1 / cK"
    using pow_minus_lower [OF assms] cK_pos by (intro divide_left_mono) simp_all
  finally show ?thesis .
qed

lemma numeric_upper: "((1 / cK) * (1 + eps64) + 2 ^ 20 * eta64) / cK \<le> 1 + 1 / 10 ^ 9"
  by (simp add: cK_def eps64_def eta64_def)

lemma numeric_lower: "1 - 1 / 10 ^ 9 \<le> (cK * (1 - eps64) - 2 ^ 20 * eta64) * cK"
  by (simp add: cK_def eps64_def eta64_def)

lemma numeric_small: "1 / cK \<le> 2" "(1 / cK) * (1 + eps64) + 2 ^ 20 * eta64 \<le> 2"
  "0 \<le> cK * (1 - eps64) - 2 ^ 20 * eta64"
  by (simp_all add: cK_def eps64_def eta64_def)

lemma two_small: "(2::rat) < 2 powi 1023" "(4::rat) < 2 powi 1023"
  by simp_all

lemma val_le_sum_list:
  assumes "\<forall>x\<in>set u. 0 \<le> val x" "x \<in> set u"
  shows "val x \<le> sum_list (map val u)"
  using assms
proof (induction u)
  case Nil
  then show ?case by simp
next
  case (Cons y u)
  have nn: "0 \<le> sum_list (map val u)"
    using Cons.prems(1) by (intro sum_list_nonneg) auto
  have y0: "0 \<le> val y" using Cons.prems(1) by simp
  show ?case
  proof (cases "x = y")
    case True
    then show ?thesis using nn by simp
  next
    case False
    with Cons.prems have "x \<in> set u" by simp
    with Cons.IH Cons.prems(1) have "val x \<le> sum_list (map val u)" by simp
    then show ?thesis using y0 by simp
  qed
qed

lemma sum_mset_val_list: "(\<Sum>x\<in>#mset u. val x) = sum_list (map val u)"
  by (induction u) auto

lemma quotient_sum_bounds:
  assumes "\<forall>x\<in>set u. 0 \<le> val x
            \<and> (val x / t) * (1 - eps64) - eta64 \<le> val (f x)
            \<and> val (f x) \<le> (val x / t) * (1 + eps64) + eta64"
  shows "(sum_list (map val u) / t) * (1 - eps64) - of_nat (length u) * eta64
           \<le> sum_list (map val (map f u))
         \<and> sum_list (map val (map f u))
           \<le> (sum_list (map val u) / t) * (1 + eps64) + of_nat (length u) * eta64"
  using assms
proof (induction u)
  case Nil
  then show ?case by simp
next
  case (Cons x u)
  then have ih: "(sum_list (map val u) / t) * (1 - eps64) - of_nat (length u) * eta64
           \<le> sum_list (map val (map f u))"
      "sum_list (map val (map f u))
           \<le> (sum_list (map val u) / t) * (1 + eps64) + of_nat (length u) * eta64"
    and x: "(val x / t) * (1 - eps64) - eta64 \<le> val (f x)"
           "val (f x) \<le> (val x / t) * (1 + eps64) + eta64"
    by simp_all
  have l: "sum_list (map val (x # u)) / t = val x / t + sum_list (map val u) / t"
    by (simp add: add_divide_distrib)
  show ?case
    unfolding l using ih x by (simp add: algebra_simps)
qed

lemma normalized_sum_near_one:
  assumes dbl: "\<forall>x\<in>set u. \<exists>q. x = Fin q \<and> 0 \<le> q \<and> on_grid q"
    and tot: "np_sum u = Fin t" and t0: "t \<noteq> 0" and len: "length u \<le> 2 ^ 20"
  shows "\<exists>s. np_sum (np_div u (Fin t)) = Fin s \<and> \<bar>s - 1\<bar> \<le> 1 / 10 ^ 9
           \<and> (\<forall>x\<in>set (np_div u (Fin t)). \<exists>q. x = Fin q \<and> 0 \<le> q \<and> on_grid q)"
proof -
  let ?S = "sum_list (map val u)"
  let ?p = "1 + eps64" and ?m = "1 - eps64"
  let ?f = "\<lambda>x. fdiv x (Fin t)"
  have dblm: "\<forall>x\<in>#mset u. \<exists>q. x = Fin q \<and> 0 \<le> q \<and> on_grid q" using dbl by simp
  from np_sum_tree [of u] obtain k where
    k: "sum_tree k (mset u) (np_sum u)" "k \<le> 2 * length u" by blast
  from k(2) len have kK: "k \<le> 2 ^ 21" by simp
  from sum_tree_bounds [OF k(1) dblm tot] have
    tb: "0 \<le> t" "?S * ?m ^ k \<le> t" "t \<le> ?S * ?p ^ k"
    by (simp_all add: sum_mset_val_list)
  from tb(1) t0 have tpos: "0 < t" by simp
  have S0: "0 \<le> ?S" using sum_val_nonneg [OF dblm] by (simp add: sum_mset_val_list)
  have Spos: "0 < ?S"
  proof (rule ccontr)
    assume "\<not> 0 < ?S"
    with S0 have "?S = 0" by simp
    with tb(3) tpos show False by simp
  qed
  have "?S * cK \<le> ?S * ?m ^ k"
    using pow_minus_lower [OF kK] S0 by (intro mult_left_mono)
  with tb(2) have lo: "?S * cK \<le> t" by linarith
  have "?S * ?p ^ k \<le> ?S * (1 / cK)"
    using pow_plus_upper [OF kK] S0 by (intro mult_left_mono)
  with tb(3) have hi: "t \<le> ?S * (1 / cK)" by linarith
  have r_hi: "?S / t \<le> 1 / cK"
    using lo tpos cK_pos by (simp add: field_simps)
  have r_lo: "cK \<le> ?S / t"
    using hi tpos cK_pos by (simp add: field_simps)
  have nonneg_val: "\<forall>x\<in>set u. 0 \<le> val x" using dbl by auto
  have elem: "\<exists>r. ?f x = Fin r \<and> 0 \<le> r \<and> on_grid r
                \<and> (val x / t) * ?m - eta64 \<le> r \<and> r \<le> (val x / t) * ?p + eta64"
    if "x \<in> set u" for x
  proof -
    from dbl that obtain a where a: "x = Fin a" "0 \<le> a" by blast
    have "a \<le> ?S" using val_le_sum_list [OF nonneg_val that] a by simp
    then have "a / t \<le> ?S / t" using tpos by (simp add: divide_right_mono)
    with r_hi numeric_small(1) two_small(1) have small: "a / t < 2 powi 1023" by linarith
    have q0: "0 \<le> a / t" using a tpos by simp
    from round64_finite [OF q0 small] obtain r where r: "round64 (a / t) = Fin r" by blast
    from round64_error [OF q0 r] have "\<bar>r - a / t\<bar> \<le> (a / t) * eps64 + eta64" .
    then have e1: "r - a / t \<le> (a / t) * eps64 + eta64"
      and e2: "a / t - r \<le> (a / t) * eps64 + eta64"
      by (simp_all add: abs_le_iff)
    have m1: "(a / t) * ?m = a / t - (a / t) * eps64"
      by (simp add: right_diff_distrib)
    have m2: "(a / t) * ?p = a / t + (a / t) * eps64"
      by (simp add: distrib_left)
    have "(a / t) * ?m - eta64 \<le> r" unfolding m1 using e2 by linarith
    moreover have "r \<le> (a / t) * ?p + eta64" unfolding m2 using e1 by linarith
    ultimately have "(a / t) * ?m - eta64 \<le> r" "r \<le> (a / t) * ?p + eta64"
      by blast+
    moreover have "?f x = Fin r" using a r t0 by simp
    moreover note round64_nonneg [OF q0 r] round64_on_grid [OF q0 r]
    ultimately show ?thesis using a by simp
  qed
  have qd: "\<forall>x\<in>set (np_div u (Fin t)). \<exists>q. x = Fin q \<and> 0 \<le> q \<and> on_grid q"
    using elem by (auto simp: np_div_def)
  then have qdm: "\<forall>x\<in>#mset (np_div u (Fin t)). \<exists>q. x = Fin q \<and> 0 \<le> q \<and> on_grid q" by simp
  let ?R = "sum_list (map val (np_div u (Fin t)))"
  have "\<forall>x\<in>set u. 0 \<le> val x
            \<and> (val x / t) * ?m - eta64 \<le> val (?f x)
            \<and> val (?f x) \<le> (val x / t) * ?p + eta64"
  proof
    fix x assume x: "x \<in> set u"
    from elem [OF x] obtain r where "?f x = Fin r" "(val x / t) * ?m - eta64 \<le> r"
      "r \<le> (val x / t) * ?p + eta64" by blast
    with nonneg_val x show "0 \<le> val x
            \<and> (val x / t) * ?m - eta64 \<le> val (?f x)
            \<and> val (?f x) \<le> (val x / t) * ?p + eta64" by simp
  qed
  from quotient_sum_bounds [OF this] have
    R: "(?S / t) * ?m - of_nat (length u) * eta64 \<le> ?R"
       "?R \<le> (?S / t) * ?p + of_nat (length u) * eta64"
    by (simp_all add: np_div_def)
  have eta0: "0 \<le> eta64" by (simp add: eta64_def)
  have "(of_nat (length u) :: rat) \<le> of_nat (2 ^ 20)" using len by (simp only: of_nat_le_iff)
  then have neta: "of_nat (length u) * eta64 \<le> 2 ^ 20 * eta64"
    using eta0 by (intro mult_right_mono) simp_all
  have "(?S / t) * ?p \<le> (1 / cK) * ?p"
    using r_hi eps64_bounds by (intro mult_right_mono) simp_all
  with R(2) neta have R_hi: "?R \<le> (1 / cK) * ?p + 2 ^ 20 * eta64" by linarith
  have "cK * ?m \<le> (?S / t) * ?m"
    using r_lo eps64_bounds by (intro mult_right_mono) simp_all
  with R(1) neta have R_lo: "cK * ?m - 2 ^ 20 * eta64 \<le> ?R" by linarith
  have R0: "0 \<le> ?R" using R_lo numeric_small(3) by linarith
  from np_sum_tree [of "np_div u (Fin t)"] obtain k' where
    k': "sum_tree k' (mset (np_div u (Fin t))) (np_sum (np_div u (Fin t)))"
        "k' \<le> 2 * length (np_div u (Fin t))" by blast
  from k'(2) len have k'K: "k' \<le> 2 ^ 21" by (simp add: np_div_def)
  have "?R * ?p ^ k' \<le> ?R * (1 / cK)"
    using pow_plus_upper [OF k'K] R0 by (intro mult_left_mono)
  also have "\<dots> \<le> 2 * (1 / cK)"
    using R_hi numeric_small(2) cK_pos by (intro mult_right_mono) simp_all
  also have "\<dots> \<le> 4" using numeric_small(1) by simp
  finally have "?R * ?p ^ k' < 2 powi 1023" using two_small(2) by linarith
  then have "(\<Sum>x\<in>#mset (np_div u (Fin t)). val x) * ?p ^ k' < 2 powi 1023"
    by (simp add: sum_mset_val_list)
  from sum_tree_finite [OF k'(1) qdm this] obtain s where
    s: "np_sum (np_div u (Fin t)) = Fin s" by blast
  from sum_tree_bounds [OF k'(1) qdm s] have
    sb: "?R * ?m ^ k' \<le> s" "s \<le> ?R * ?p ^ k'"
    by (simp_all add: sum_mset_val_list)
  have "?R * ?p ^ k' \<le> ?R * (1 / cK)"
    using pow_plus_upper [OF k'K] R0 by (intro mult_left_mono)
  also have "\<dots> \<le> ((1 / cK) * ?p + 2 ^ 20 * eta64) * (1 / cK)"
    using R_hi cK_pos by (intro mult_right_mono) simp_all
  also have "\<dots> \<le> 1 + 1 / 10 ^ 9" using numeric_upper by simp
  finally have s_hi: "s \<le> 1 + 1 / 10 ^ 9" using sb(2) by linarith
  have "1 - 1 / 10 ^ 9 \<le> (cK * ?m - 2 ^ 20 * eta64) * cK" by (rule numeric_lower)
  also have "\<dots> \<le> ?R * cK"
    using R_lo cK_pos by (intro mult_right_mono) simp_all
  also have "\<dots> \<le> ?R * ?m ^ k'"
    using pow_minus_lower [OF k'K] R0 by (intro mult_left_mono)
  finally have s_lo: "1 - 1 / 10 ^ 9 \<le> s" using sb(1) by linarith
  from s_lo s_hi have "\<bar>s - 1\<bar> \<le> 1 / 10 ^ 9" by linarith
  with s qd show ?thesis by blast
qed

lemma nonneg_finite_iff: "nonneg_finite x \<longleftrightarrow> (\<exists>q. x = Fin q \<and> 0 \<le> q)"
  by (cases x) auto

lemma np_mul_elements:
  assumes "np_mul a b = Inr u" "z \<in> set u"
  shows "\<exists>x\<in>set a. \<exists>y\<in>set b. z = fmul x y"
proof (cases "length a = length b")
  case True
  with assms have "z \<in> set (map2 fmul a b)" by (simp add: np_mul_def)
  then obtain x y where "(x, y) \<in> set (zip a b)" "z = fmul x y" by auto
  then show ?thesis by (auto dest: set_zip_leftD set_zip_rightD)
next
  case False
  show ?thesis
  proof (cases "length b = 1")
    case True
    then have hb: "hd b \<in> set b" by (cases b) auto
    from assms False True have "z \<in> set (map (\<lambda>x. fmul x (hd b)) a)" by (simp add: np_mul_def)
    then obtain x where "x \<in> set a" "z = fmul x (hd b)" by auto
    with hb show ?thesis by blast
  next
    case b: False
    with assms False have a: "length a = 1" and u: "u = map (\<lambda>y. fmul (hd a) y) b"
      by (auto simp: np_mul_def split: if_splits)
    from a have ha: "hd a \<in> set a" by (cases a) auto
    from assms(2) u obtain y where "y \<in> set b" "z = fmul (hd a) y" by auto
    with ha show ?thesis by blast
  qed
qed

lemma np_mul_length:
  assumes "np_mul a b = Inr u"
  shows "length u = length a \<or> length u = length b"
  using assms by (auto simp: np_mul_def split: if_splits)

lemma products_nonneg_grid:
  assumes P: "\<forall>x\<in>set P. nonneg_finite x" and l: "\<forall>y\<in>set l. nonneg_finite y"
    and u: "np_mul P l = Inr u" and t: "np_sum u = Fin t"
  shows "\<forall>z\<in>set u. \<exists>q. z = Fin q \<and> 0 \<le> q \<and> on_grid q"
proof
  fix z assume z: "z \<in> set u"
  from np_mul_elements [OF u z] obtain x y where xy: "x \<in> set P" "y \<in> set l" "z = fmul x y"
    by blast
  from P xy(1) obtain a where a: "x = Fin a" "0 \<le> a" by (auto simp: nonneg_finite_iff)
  from l xy(2) obtain b where b: "y = Fin b" "0 \<le> b" by (auto simp: nonneg_finite_iff)
  note ab = a b
  from np_sum_finite_elements [OF t z] obtain q where q: "z = Fin q" by blast
  with xy ab have r: "round64 (a * b) = Fin q" by simp
  from ab have "0 \<le> a * b" by simp
  from round64_nonneg [OF this r] round64_on_grid [OF this r] q
  show "\<exists>q. z = Fin q \<and> 0 \<le> q \<and> on_grid q" by blast
qed

lemma finite_nonzero_iff: "finite_nonzero x \<longleftrightarrow> (\<exists>t. x = Fin t \<and> t \<noteq> 0)"
  by (cases x) auto

lemma run_updates_sums:
  assumes "\<forall>x\<in>set (last (posteriors e)). nonneg_finite x"
    and "length (last (posteriors e)) \<le> 2 ^ 20"
    and "\<forall>l\<in>set ls. length l \<le> 2 ^ 20 \<and> (\<forall>y\<in>set l. nonneg_finite y)"
    and "updates_succeed e ls"
  shows "\<exists>e' qs. run_updates e ls = Inr e' \<and> posteriors e' = posteriors e @ qs
            \<and> length qs = length ls \<and> (\<forall>q\<in>set qs. sums_to_one q)"
  using assms
proof (induction ls arbitrary: e)
  case Nil
  then show ?case by simp
next
  case (Cons l ls)
  from Cons.prems(4) have n: "normalizable e l"
    and rest: "updates_succeed (snd (update e l)) ls" by simp_all
  from normalizable_update [OF n] obtain u where
    u: "np_mul (last (posteriors e)) l = Inr u" and fz: "finite_nonzero (np_sum u)"
    and upd: "update e l = (Inr (np_div u (np_sum u)),
                           e\<lparr>posteriors := posteriors e @ [np_div u (np_sum u)]\<rparr>)"
    by blast
  from fz obtain t where t: "np_sum u = Fin t" "t \<noteq> 0" by (auto simp: finite_nonzero_iff)
  let ?q = "np_div u (Fin t)"
  let ?e1 = "e\<lparr>posteriors := posteriors e @ [?q]\<rparr>"
  from Cons.prems(3) have l: "\<forall>y\<in>set l. nonneg_finite y" "length l \<le> 2 ^ 20" by simp_all
  from products_nonneg_grid [OF Cons.prems(1) l(1) u t(1)]
  have ug: "\<forall>z\<in>set u. \<exists>q. z = Fin q \<and> 0 \<le> q \<and> on_grid q" .
  from np_mul_length [OF u] Cons.prems(2) l(2) have ul: "length u \<le> 2 ^ 20" by auto
  from normalized_sum_near_one [OF ug t ul] obtain s where
    s: "np_sum ?q = Fin s" "\<bar>s - 1\<bar> \<le> 1 / 10 ^ 9"
    and qg: "\<forall>x\<in>set ?q. \<exists>q. x = Fin q \<and> 0 \<le> q \<and> on_grid q" by blast
  from s have one: "sums_to_one ?q" by (simp add: sums_to_one_def)
  from upd t have upd1: "update e l = (Inr ?q, ?e1)" by simp
  have p1: "\<forall>x\<in>set (last (posteriors ?e1)). nonneg_finite x"
    using qg by (auto simp: nonneg_finite_iff)
  have p2: "length (last (posteriors ?e1)) \<le> 2 ^ 20"
    using ul by (simp add: np_div_def)
  have p3: "\<forall>l\<in>set ls. length l \<le> 2 ^ 20 \<and> (\<forall>y\<in>set l. nonneg_finite y)"
    using Cons.prems(3) by simp
  have p4: "updates_succeed ?e1 ls" using rest upd1 by simp
  from Cons.IH [OF p1 p2 p3 p4] obtain e' qs where
    r: "run_updates ?e1 ls = Inr e'" "posteriors e' = posteriors ?e1 @ qs"
       "length qs = length ls" "\<forall>q\<in>set qs. sums_to_one q" by blast
  have "run_updates e (l # ls) = Inr e'" using upd1 r(1) by simp
  moreover have "posteriors e' = posteriors e @ (?q # qs)" using r(2) by simp
  moreover have "length (?q # qs) = length (l # ls)" using r(3) by simp
  moreover have "\<forall>q\<in>set (?q # qs). sums_to_one q" using one r(4) by simp
  ultimately show ?case by blast
qed

lemma update_uniform4_1131:
  "update (BayesianEstimation [Fin 0, Fin 1, Fin 2, Fin 3] (randint_pmf 0 4))
      [Fin 1, Fin 1, Fin 3, Fin 1] =
     (Inr [Fin (6004799503160661 / 36028797018963968), Fin (6004799503160661 / 36028797018963968),
           Fin (1 / 2), Fin (6004799503160661 / 36028797018963968)],
      (BayesianEstimation [Fin 0, Fin 1, Fin 2, Fin 3] (randint_pmf 0 4))
        \<lparr>posteriors := [[Fin (1 / 4), Fin (1 / 4), Fin (1 / 4), Fin (1 / 4)],
           [Fin (6004799503160661 / 36028797018963968), Fin (6004799503160661 / 36028797018963968),
            Fin (1 / 2), Fin (6004799503160661 / 36028797018963968)]]\<rparr>)"
proof -
  have m: "np_mul (last [[Fin (1 / 4), Fin (1 / 4), Fin (1 / 4), Fin (1 / 4)]])
             [Fin 1, Fin 1, Fin 3, Fin 1]
           = Inr [Fin (1 / 4), Fin (1 / 4), Fin (3 / 4), Fin (1 / 4)]"
    by code_simp
  have d: "np_div [Fin (1 / 4), Fin (1 / 4), Fin (3 / 4), Fin (1 / 4)]
             (np_sum [Fin (1 / 4), Fin (1 / 4), Fin (3 / 4), Fin (1 / 4)])
           = [Fin (6004799503160661 / 36028797018963968), Fin (6004799503160661 / 36028797018963968),
              Fin (1 / 2), Fin (6004799503160661 / 36028797018963968)]"
    by code_simp
  from update_eval [OF prior_uniform4 _ m d] show ?thesis by simp
qed

lemma update_uniform4_cancel:
  "update (BayesianEstimation [Fin 0, Fin 1, Fin 2, Fin 3] (randint_pmf 0 4))
      [Fin 40000000000000000, Fin 44, Fin (- 40000000000000000), Fin 0] =
     (Inr [Fin (6666666666666667 / 8), Fin (8256599316845909 / 9007199254740992),
           Fin (- (6666666666666667 / 8)), Fin 0],
      (BayesianEstimation [Fin 0, Fin 1, Fin 2, Fin 3] (randint_pmf 0 4))
        \<lparr>posteriors := [[Fin (1 / 4), Fin (1 / 4), Fin (1 / 4), Fin (1 / 4)],
           [Fin (6666666666666667 / 8), Fin (8256599316845909 / 9007199254740992),
            Fin (- (6666666666666667 / 8)), Fin 0]]\<rparr>)"
proof -
  have m: "np_mul (last [[Fin (1 / 4), Fin (1 / 4), Fin (1 / 4), Fin (1 / 4)]])
             [Fin 40000000000000000, Fin 44, Fin (- 40000000000000000), Fin 0]
           = Inr [Fin 10000000000000000, Fin 11, Fin (- 10000000000000000), Fin 0]"
    by code_simp
  have d: "np_div [Fin 10000000000000000, Fin 11, Fin (- 10000000000000000), Fin 0]
             (np_sum [Fin 10000000000000000, Fin 11, Fin (- 10000000000000000), Fin 0])
           = [Fin (6666666666666667 / 8), Fin (8256599316845909 / 9007199254740992),
              Fin (- (6666666666666667 / 8)), Fin 0]"
    by code_simp
  from update_eval [OF prior_uniform4 _ m d] show ?thesis by simp
qed

lemma update_quarter2_11:
  "update (BayesianEstimation [Fin 0, Fin 1] (randint_pmf 0 4)) [Fin 1, Fin 1] =
     (Inr [Fin (1 / 2), Fin (1 / 2)],
      (BayesianEstimation [Fin 0, Fin 1] (randint_pmf 0 4))
        \<lparr>posteriors := [[Fin (1 / 4), Fin (1 / 4)], [Fin (1 / 2), Fin (1 / 2)]]\<rparr>)"
proof -
  have p: "posteriors (BayesianEstimation [Fin 0, Fin 1] (randint_pmf 0 4))
             = [[Fin (1 / 4), Fin (1 / 4)]]"
    by code_simp
  have m: "np_mul (last [[Fin (1 / 4), Fin (1 / 4)]]) [Fin 1, Fin 1]
           = Inr [Fin (1 / 4), Fin (1 / 4)]"
    by code_simp
  have d: "np_div [Fin (1 / 4), Fin (1 / 4)] (np_sum [Fin (1 / 4), Fin (1 / 4)])
           = [Fin (1 / 2), Fin (1 / 2)]"
    by code_simp
  from update_eval [OF p _ m d] show ?thesis by simp
qed

section \<open>The update computes the normalized product\<close>



section \<open>Growth of the history\<close>

text \<open>
  C7. Construction stores the history as the one-element list holding the prior, and
  after \<open>k\<close> update calls that all returned, the history has exactly \<open>k + 1\<close> entries.
\<close>

theorem history_length_after_updates:
  assumes "run_updates (BayesianEstimation hyps pmf) ls = Inr e'"
  shows "posteriors (BayesianEstimation hyps pmf) = [map pmf hyps]
         \<and> length (posteriors e') = length ls + 1"
  using run_updates_length [OF assms] by (simp add: BayesianEstimation_def)

theorem history_length_after_updates_witness:
  "run_updates (BayesianEstimation [Fin 0, Fin 1] (randint_pmf 0 2))
     [[Fin 1, Fin 3], [Fin 1, Fin 1]] =
   Inr ((BayesianEstimation [Fin 0, Fin 1] (randint_pmf 0 2))
     \<lparr>posteriors := [[Fin (1 / 2), Fin (1 / 2)], [Fin (1 / 4), Fin (3 / 4)],
                     [Fin (1 / 4), Fin (3 / 4)]]\<rparr>)
   \<and> length (posteriors ((BayesianEstimation [Fin 0, Fin 1] (randint_pmf 0 2))
     \<lparr>posteriors := [[Fin (1 / 2), Fin (1 / 2)], [Fin (1 / 4), Fin (3 / 4)],
                     [Fin (1 / 4), Fin (3 / 4)]]\<rparr>)) = length [[Fin 1, Fin 3], [Fin 1, Fin 1]] + 1"
proof -
  have r: "run_updates (BayesianEstimation [Fin 0, Fin 1] (randint_pmf 0 2))
             [[Fin 1, Fin 3], [Fin 1, Fin 1]] =
           Inr ((BayesianEstimation [Fin 0, Fin 1] (randint_pmf 0 2))
             \<lparr>posteriors := [[Fin (1 / 2), Fin (1 / 2)], [Fin (1 / 4), Fin (3 / 4)],
                             [Fin (1 / 4), Fin (3 / 4)]]\<rparr>)"
    by (simp add: update_uniform2_13 update_second_11)
  from history_length_after_updates [OF r] r show ?thesis by blast
qed

section \<open>Earlier snapshots are kept\<close>

text \<open>
  C8. Whatever the likelihood, after a call of \<open>update\<close> the entries the history held
  before the call are still there, unchanged and in the same places: the history is either
  what it was or what it was followed by the one array the call returned. The hypothesis
  set, the prior and the prior distribution are unchanged.
\<close>

theorem update_only_appends:
  "take (length (posteriors e)) (posteriors (snd (update e l))) = posteriors e
   \<and> (posteriors (snd (update e l)) = posteriors e
      \<or> (\<exists>q. fst (update e l) = Inr q \<and> posteriors (snd (update e l)) = posteriors e @ [q]))
   \<and> hypotheses (snd (update e l)) = hypotheses e
   \<and> priors (snd (update e l)) = priors e
   \<and> prior_dist (snd (update e l)) = prior_dist e"
  by (auto simp: update_def Let_def split: sum.splits)

theorem update_only_appends_witness:
  "posteriors (snd (update (BayesianEstimation [Fin 0, Fin 1] (randint_pmf 0 2)) [Fin 1, Fin 3]))
     = [[Fin (1 / 2), Fin (1 / 2)], [Fin (1 / 4), Fin (3 / 4)]]
   \<and> take 1 (posteriors (snd (update (BayesianEstimation [Fin 0, Fin 1] (randint_pmf 0 2))
                             [Fin 1, Fin 3])))
     = [[Fin (1 / 2), Fin (1 / 2)]]"
  using update_only_appends [of "BayesianEstimation [Fin 0, Fin 1] (randint_pmf 0 2)" "[Fin 1, Fin 3]"]
  by (simp add: update_uniform2_13)

section \<open>A degenerate total is not reported\<close>

text \<open>
  C2, as the code has it. \<open>update\<close> never inspects the total. For every likelihood of
  the length of the last posterior, whatever the total of the products, the call returns
  normally and the history is one entry longer. For a likelihood of all zeros every entry
  of the array it appends and returns is not-a-number.
\<close>

theorem degenerate_total_is_not_signalled:
  assumes "posteriors e \<noteq> []"
      and "length l = length (last (posteriors e))"
  shows "(\<exists>q. update e l = (Inr q, e\<lparr>posteriors := posteriors e @ [q]\<rparr>))
         \<and> length (posteriors (snd (update e l))) = length (posteriors e) + 1
         \<and> ((\<forall>x\<in>set l. x = Fin 0) \<longrightarrow>
              update e l = (Inr (replicate (length l) NaN),
                            e\<lparr>posteriors := posteriors e @ [replicate (length l) NaN]\<rparr>))"
proof (intro conjI impI)
  show "\<exists>q. update e l = (Inr q, e\<lparr>posteriors := posteriors e @ [q]\<rparr>)"
    using assms by (simp add: update_same_length)
  show "length (posteriors (snd (update e l))) = length (posteriors e) + 1"
    using assms by (simp add: update_same_length)
  assume z: "\<forall>x\<in>set l. x = Fin 0"
  show "update e l = (Inr (replicate (length l) NaN),
                      e\<lparr>posteriors := posteriors e @ [replicate (length l) NaN]\<rparr>)"
    using assms np_div_all_nan [OF map2_zero_likelihood [OF z], of "last (posteriors e)"]
    by (simp add: update_same_length)
qed

theorem degenerate_total_is_not_signalled_witness:
  "length (posteriors (snd (update (BayesianEstimation [Fin 0, Fin 1] (randint_pmf 0 2))
                             [Fin 0, Fin 0]))) = 2
   \<and> fst (update (BayesianEstimation [Fin 0, Fin 1] (randint_pmf 0 2)) [Fin 0, Fin 0])
     = Inr [NaN, NaN]"
  using degenerate_total_is_not_signalled
          [of "BayesianEstimation [Fin 0, Fin 1] (randint_pmf 0 2)" "[Fin 0, Fin 0]"]
  by (simp add: prior_uniform2)

text \<open>
  C2 as stated fails: on the uniform prior over two hypotheses the all-zero likelihood
  raises nothing, and the history grows to two entries, the second all not-a-number.
\<close>

theorem zero_likelihood_counterexample:
  "update (BayesianEstimation [Fin 0, Fin 1] (randint_pmf 0 2)) [Fin 0, Fin 0] =
     (Inr [NaN, NaN],
      (BayesianEstimation [Fin 0, Fin 1] (randint_pmf 0 2))
        \<lparr>posteriors := [[Fin (1 / 2), Fin (1 / 2)], [NaN, NaN]]\<rparr>)"
proof -
  have m: "np_mul (last [[Fin (1 / 2), Fin (1 / 2)]]) [Fin 0, Fin 0] = Inr [Fin 0, Fin 0]"
    by code_simp
  have d: "np_div [Fin 0, Fin 0] (np_sum [Fin 0, Fin 0]) = [NaN, NaN]"
    by code_simp
  from update_eval [OF prior_uniform2 _ m d] show ?thesis by simp
qed

section \<open>Likelihoods of another length\<close>

text \<open>
  C6, as the code has it. The only length test is the one numpy makes when it multiplies.
  When the last posterior has the length of the hypothesis set, the likelihood has another
  length, and neither length is one, the product raises \<open>ValueError\<close> before anything is
  appended: the estimator after the call is the estimator before it.
\<close>

theorem length_mismatch_raises:
  assumes "posteriors e \<noteq> []"
      and "length (last (posteriors e)) = length (hypotheses e)"
      and "length l \<noteq> length (hypotheses e)"
      and "length l \<noteq> 1"
      and "length (hypotheses e) \<noteq> 1"
  shows "update e l = (Inl ValueError, e)"
  using assms by (simp add: update_def np_mul_def)

theorem length_mismatch_raises_witness:
  "update (BayesianEstimation [Fin 0, Fin 1, Fin 2, Fin 3] (randint_pmf 0 4)) [Fin 1, Fin 2] =
     (Inl ValueError, BayesianEstimation [Fin 0, Fin 1, Fin 2, Fin 3] (randint_pmf 0 4))"
  using length_mismatch_raises [of "BayesianEstimation [Fin 0, Fin 1, Fin 2, Fin 3] (randint_pmf 0 4)" "[Fin 1, Fin 2]"]
  by (simp add: BayesianEstimation_def)

text \<open>
  C6 as stated fails for a likelihood of length one: numpy stretches it over the four
  hypotheses, the call returns and the history grows.
\<close>

theorem length_one_broadcast_counterexample:
  "length [Fin 2] \<noteq> length (hypotheses (BayesianEstimation [Fin 0, Fin 1, Fin 2, Fin 3] (randint_pmf 0 4)))
   \<and> update (BayesianEstimation [Fin 0, Fin 1, Fin 2, Fin 3] (randint_pmf 0 4)) [Fin 2] =
     (Inr [Fin (1 / 4), Fin (1 / 4), Fin (1 / 4), Fin (1 / 4)],
      (BayesianEstimation [Fin 0, Fin 1, Fin 2, Fin 3] (randint_pmf 0 4))
        \<lparr>posteriors := [[Fin (1 / 4), Fin (1 / 4), Fin (1 / 4), Fin (1 / 4)],
                        [Fin (1 / 4), Fin (1 / 4), Fin (1 / 4), Fin (1 / 4)]]\<rparr>)"
proof -
  have m: "np_mul (last [[Fin (1 / 4), Fin (1 / 4), Fin (1 / 4), Fin (1 / 4)]]) [Fin 2]
           = Inr [Fin (1 / 2), Fin (1 / 2), Fin (1 / 2), Fin (1 / 2)]"
    by code_simp
  have d: "np_div [Fin (1 / 2), Fin (1 / 2), Fin (1 / 2), Fin (1 / 2)]
             (np_sum [Fin (1 / 2), Fin (1 / 2), Fin (1 / 2), Fin (1 / 2)])
           = [Fin (1 / 4), Fin (1 / 4), Fin (1 / 4), Fin (1 / 4)]"
    by code_simp
  from update_eval [OF prior_uniform4 _ m d] show ?thesis
    by (simp add: BayesianEstimation_def)
qed

section \<open>Zeros are absorbing\<close>

text \<open>
  C10. If the current snapshot gives probability zero to hypothesis \<open>i\<close>, then every
  snapshot appended by the following updates, each dividing by a finite total that is not
  zero, gives probability zero to hypothesis \<open>i\<close> as well.
\<close>

theorem zeros_are_absorbing:
  assumes "updates_succeed e ls"
      and "run_updates e ls = Inr e'"
      and "i < length (last (posteriors e))"
      and "last (posteriors e) ! i = Fin 0"
      and "length (posteriors e) \<le> j"
      and "j < length (posteriors e')"
  shows "i < length (posteriors e' ! j) \<and> posteriors e' ! j ! i = Fin 0"
proof -
  from updates_succeed_zero [OF assms(1,3,4)] assms(2) obtain new where
    new: "posteriors e' = posteriors e @ new" "\<forall>q\<in>set new. i < length q \<and> q ! i = Fin 0"
    by auto
  from assms(5,6) new(1) have "posteriors e' ! j = new ! (j - length (posteriors e))"
    and "j - length (posteriors e) < length new"
    by (simp_all add: nth_append)
  with new(2) show ?thesis by simp
qed

theorem zeros_are_absorbing_witness:
  "updates_succeed (BayesianEstimation [Fin 0, Fin 1, Fin 2] (randint_pmf 1 3)) [[Fin 1, Fin 1, Fin 3], [Fin 5, Fin 3, Fin 1]]
   \<and> run_updates (BayesianEstimation [Fin 0, Fin 1, Fin 2] (randint_pmf 1 3)) [[Fin 1, Fin 1, Fin 3], [Fin 5, Fin 3, Fin 1]]
     = Inr ((BayesianEstimation [Fin 0, Fin 1, Fin 2] (randint_pmf 1 3))
              \<lparr>posteriors := [[Fin 0, Fin (1 / 2), Fin (1 / 2)], [Fin 0, Fin (1 / 4), Fin (3 / 4)],
                              [Fin 0, Fin (1 / 2), Fin (1 / 2)]]\<rparr>)
   \<and> [Fin 0, Fin (1 / 2), Fin (1 / 2)] ! 0 = Fin 0"
proof -
  let ?e = "BayesianEstimation [Fin 0, Fin 1, Fin 2] (randint_pmf 1 3)"
  let ?ls = "[[Fin 1, Fin 1, Fin 3], [Fin 5, Fin 3, Fin 1]]"
  let ?e1 = "?e\<lparr>posteriors := [[Fin 0, Fin (1 / 2), Fin (1 / 2)], [Fin 0, Fin (1 / 4), Fin (3 / 4)]]\<rparr>"
  let ?e' = "?e\<lparr>posteriors := [[Fin 0, Fin (1 / 2), Fin (1 / 2)], [Fin 0, Fin (1 / 4), Fin (3 / 4)],
                              [Fin 0, Fin (1 / 2), Fin (1 / 2)]]\<rparr>"
  have m1: "np_mul (last [[Fin 0, Fin (1 / 2), Fin (1 / 2)]]) [Fin 1, Fin 1, Fin 3]
            = Inr [Fin 0, Fin (1 / 2), Fin (3 / 2)]"
    by code_simp
  have s1: "np_sum [Fin 0, Fin (1 / 2), Fin (3 / 2)] = Fin 2"
    by code_simp
  have d1: "np_div [Fin 0, Fin (1 / 2), Fin (3 / 2)] (Fin 2) = [Fin 0, Fin (1 / 4), Fin (3 / 4)]"
    by code_simp
  have m2: "np_mul (last [[Fin 0, Fin (1 / 2), Fin (1 / 2)], [Fin 0, Fin (1 / 4), Fin (3 / 4)]])
              [Fin 5, Fin 3, Fin 1] = Inr [Fin 0, Fin (3 / 4), Fin (3 / 4)]"
    by code_simp
  have s2: "np_sum [Fin 0, Fin (3 / 4), Fin (3 / 4)] = Fin (3 / 2)"
    by code_simp
  have d2: "np_div [Fin 0, Fin (3 / 4), Fin (3 / 4)] (Fin (3 / 2)) = [Fin 0, Fin (1 / 2), Fin (1 / 2)]"
    by code_simp
  have u1: "update ?e [Fin 1, Fin 1, Fin 3] = (Inr [Fin 0, Fin (1 / 4), Fin (3 / 4)], ?e1)"
    using update_eval [OF prior_zero_first _ m1, of "[Fin 0, Fin (1 / 4), Fin (3 / 4)]"] s1 d1
    by simp
  have p1: "posteriors ?e1 = [[Fin 0, Fin (1 / 2), Fin (1 / 2)], [Fin 0, Fin (1 / 4), Fin (3 / 4)]]"
    by simp
  have u2: "update ?e1 [Fin 5, Fin 3, Fin 1] = (Inr [Fin 0, Fin (1 / 2), Fin (1 / 2)], ?e')"
    using update_eval [OF p1 _ m2, of "[Fin 0, Fin (1 / 2), Fin (1 / 2)]"] s2 d2
    by simp
  have n1: "normalizable ?e [Fin 1, Fin 1, Fin 3]"
    using m1 s1 by (simp add: normalizable_def prior_zero_first)
  have n2: "normalizable ?e1 [Fin 5, Fin 3, Fin 1]"
    using m2 s2 by (simp add: normalizable_def)
  have ok: "updates_succeed ?e ?ls"
    using n1 n2 u1 by simp
  have r: "run_updates ?e ?ls = Inr ?e'"
    using u1 u2 by simp
  have i: "0 < length (last (posteriors ?e))" and z: "last (posteriors ?e) ! 0 = Fin 0"
    by (simp_all add: prior_zero_first)
  have j: "length (posteriors ?e) \<le> 2" "2 < length (posteriors ?e')"
    by (simp_all add: prior_zero_first)
  from zeros_are_absorbing [OF ok r i z j] ok r show ?thesis by simp
qed

section \<open>The quantile helper returns the first hypothesis that reaches the mass\<close>



section \<open>The value returned when no quantile is found\<close>

text \<open>
  C5. Take any distribution stored by an estimator, paired with the hypothesis set of that
  estimator, where the prior distribution gives not-a-number at not-a-number as every
  scipy distribution does. If the scan reaches the requested probability, the helper
  returns a hypothesis of the set that is a number; if it never does, the helper returns
  not-a-number. So not-a-number is returned exactly when no quantile was found, and is
  never a hypothesis that was found.
\<close>

theorem quantile_sentinel_only_when_not_found:
  assumes "pmf NaN = NaN"
      and "run_updates (BayesianEstimation hyps pmf) ls = Inr e"
      and "d \<in> set (posteriors e)"
      and "length d = length hyps"
      and "col_hypos \<noteq> col_probs"
  shows "if scan_reaches d p (Fin 0)
         then \<exists>h\<in>set hyps. h \<noteq> NaN \<and> quantile_of col_hypos (hypotheses e) col_probs d p = Inr h
         else quantile_of col_hypos (hypotheses e) col_probs d p = Inr NaN"
proof -
  let ?e0 = "BayesianEstimation hyps pmf"
  have a: "\<forall>d\<in>set (posteriors ?e0). length d = length hyps \<longrightarrow>
             (\<forall>i<length hyps. hyps ! i = NaN \<longrightarrow> d ! i = NaN)"
    using assms(1) by (simp add: BayesianEstimation_def)
  have b: "length (last (posteriors ?e0)) \<noteq> length hyps \<longrightarrow> length hyps = 1"
    by (simp add: BayesianEstimation_def)
  from run_updates_keeps_nan_rows [OF assms(2) a b] assms(3,4) have
    rows: "\<forall>i<length hyps. hyps ! i = NaN \<longrightarrow> d ! i = NaN" and h: "hypotheses e = hyps"
    by (auto simp: BayesianEstimation_def)
  from get_quantile_loop_result [OF assms(5) assms(4) [symmetric] rows, of p "Fin 0"] assms(4)
  show ?thesis
    unfolding h by (auto simp: quantile_of_def from_dict_def get_quantile_def)
qed

theorem quantile_sentinel_only_when_not_found_witness:
  "\<not> scan_reaches [double (1 / 10), double (1 / 10), double (1 / 10), double (1 / 10),
        double (1 / 10), double (1 / 10), double (1 / 10), double (1 / 10), double (1 / 10),
        double (1 / 10)] (Fin 1) (Fin 0)
   \<and> quantile_of ''number of rabbits''
       [Fin 1, Fin 2, Fin 3, Fin 4, Fin 5, Fin 6, Fin 7, Fin 8, Fin 9, Fin 10] ''probabilities''
       [double (1 / 10), double (1 / 10), double (1 / 10), double (1 / 10), double (1 / 10),
        double (1 / 10), double (1 / 10), double (1 / 10), double (1 / 10), double (1 / 10)]
       (Fin 1) = Inr NaN
   \<and> scan_reaches [double (1 / 10), double (1 / 10), double (1 / 10), double (1 / 10),
        double (1 / 10), double (1 / 10), double (1 / 10), double (1 / 10), double (1 / 10),
        double (1 / 10)] (double (95 / 100)) (Fin 0)
   \<and> quantile_of ''number of rabbits''
       [Fin 1, Fin 2, Fin 3, Fin 4, Fin 5, Fin 6, Fin 7, Fin 8, Fin 9, Fin 10] ''probabilities''
       [double (1 / 10), double (1 / 10), double (1 / 10), double (1 / 10), double (1 / 10),
        double (1 / 10), double (1 / 10), double (1 / 10), double (1 / 10), double (1 / 10)]
       (double (95 / 100)) = Inr (Fin 10)"
proof -
  let ?H = "[Fin 1, Fin 2, Fin 3, Fin 4, Fin 5, Fin 6, Fin 7, Fin 8, Fin 9, Fin 10]"
  let ?P = "[double (1 / 10), double (1 / 10), double (1 / 10), double (1 / 10), double (1 / 10),
        double (1 / 10), double (1 / 10), double (1 / 10), double (1 / 10), double (1 / 10)]"
  let ?e = "BayesianEstimation ?H (randint_pmf 1 11)"
  have n: "randint_pmf 1 11 NaN = NaN" by (simp add: randint_pmf_def)
  have r: "run_updates ?e [] = Inr ?e" by simp
  have d: "?P \<in> set (posteriors ?e)" unfolding prior_uniform10 by simp
  have l: "length ?P = length ?H" by simp
  have c: "''number of rabbits'' \<noteq> ''probabilities''" by simp
  have h: "hypotheses ?e = ?H" by (simp add: BayesianEstimation_def)
  have s1: "\<not> scan_reaches ?P (Fin 1) (Fin 0)"
    by (simp add: tenth_running_sums)
  have s2: "scan_reaches ?P (double (95 / 100)) (Fin 0)"
    unfolding quantile_targets by (simp add: tenth_running_sums)
  have q2: "quantile_of ''number of rabbits'' ?H ''probabilities'' ?P (double (95 / 100)) = Inr (Fin 10)"
    unfolding quantile_targets
    by (simp add: quantile_of_def from_dict_def get_quantile_def Let_def tenth_running_sums)
  from quantile_sentinel_only_when_not_found [OF n r d l c, of "Fin 1"] s1
  have q1: "quantile_of ''number of rabbits'' ?H ''probabilities'' ?P (Fin 1) = Inr NaN"
    unfolding h by simp
  from s1 q1 s2 q2 show ?thesis by blast
qed

section \<open>Stored distributions and the sum one\<close>

text \<open>
  C3, as the code has it. Construction stores the values of the prior pmf as they are;
  nothing is normalized. Let the hypothesis set and every likelihood have at most \<open>2^20\<close>
  entries, let the prior values and the likelihood entries be finite and not negative, and
  let every update divide by a finite total that is not zero. Then the updates all return,
  the history holds the raw prior at index 0, and every snapshot appended by an update has
  a float sum within \<open>1e-9\<close> of 1. The sum is the one numpy computes, with every product,
  quotient and addition rounded; it need not be exactly 1.
\<close>

theorem appended_snapshots_sum_to_one:
  assumes "length hyps \<le> 2 ^ 20" and "\<forall>h\<in>set hyps. nonneg_finite (pmf h)"
    and "\<forall>l\<in>set ls. length l \<le> 2 ^ 20 \<and> (\<forall>y\<in>set l. nonneg_finite y)"
    and "updates_succeed (BayesianEstimation hyps pmf) ls"
  shows "\<exists>e. run_updates (BayesianEstimation hyps pmf) ls = Inr e
            \<and> length (posteriors e) = Suc (length ls)
            \<and> posteriors e ! 0 = map pmf hyps
            \<and> (\<forall>j. 1 \<le> j \<and> j \<le> length ls \<longrightarrow> sums_to_one (posteriors e ! j))"
proof -
  let ?e = "BayesianEstimation hyps pmf"
  have 1: "\<forall>x\<in>set (last (posteriors ?e)). nonneg_finite x"
    using assms(2) by (simp add: BayesianEstimation_def)
  have 2: "length (last (posteriors ?e)) \<le> 2 ^ 20"
    using assms(1) by (simp add: BayesianEstimation_def)
  from run_updates_sums [OF 1 2 assms(3) assms(4)] obtain e qs where
    r: "run_updates ?e ls = Inr e" "posteriors e = posteriors ?e @ qs"
       "length qs = length ls" "\<forall>q\<in>set qs. sums_to_one q" by blast
  from r(2) have ps: "posteriors e = map pmf hyps # qs" by (simp add: BayesianEstimation_def)
  have "\<forall>j. 1 \<le> j \<and> j \<le> length ls \<longrightarrow> sums_to_one (posteriors e ! j)"
  proof (intro allI impI)
    fix j assume j: "1 \<le> j \<and> j \<le> length ls"
    then obtain i where i: "j = Suc i" "i < length qs" using r(3) by (cases j) auto
    with r(4) have "sums_to_one (qs ! i)" by simp
    with i ps show "sums_to_one (posteriors e ! j)" by simp
  qed
  with r(1) ps r(3) show ?thesis by simp
qed

theorem appended_snapshots_sum_to_one_witness:
  "run_updates (BayesianEstimation [Fin 0, Fin 1, Fin 2, Fin 3] (randint_pmf 0 4))
     [[Fin 1, Fin 1, Fin 3, Fin 1]] =
   Inr ((BayesianEstimation [Fin 0, Fin 1, Fin 2, Fin 3] (randint_pmf 0 4))
        \<lparr>posteriors := [[Fin (1 / 4), Fin (1 / 4), Fin (1 / 4), Fin (1 / 4)],
           [Fin (6004799503160661 / 36028797018963968), Fin (6004799503160661 / 36028797018963968),
            Fin (1 / 2), Fin (6004799503160661 / 36028797018963968)]]\<rparr>)
   \<and> np_sum [Fin (6004799503160661 / 36028797018963968), Fin (6004799503160661 / 36028797018963968),
            Fin (1 / 2), Fin (6004799503160661 / 36028797018963968)]
       = Fin (9007199254740991 / 9007199254740992)
   \<and> sums_to_one [Fin (6004799503160661 / 36028797018963968),
         Fin (6004799503160661 / 36028797018963968),
         Fin (1 / 2), Fin (6004799503160661 / 36028797018963968)]"
proof -
  let ?H = "[Fin 0, Fin 1, Fin 2, Fin 3]"
  let ?l = "[Fin 1, Fin 1, Fin 3, Fin 1]"
  let ?E = "BayesianEstimation ?H (randint_pmf 0 4)"
  have h1: "length ?H \<le> 2 ^ 20" by simp
  have h2: "\<forall>h\<in>set ?H. nonneg_finite (randint_pmf 0 4 h)" by code_simp
  have h3: "\<forall>l\<in>set [?l]. length l \<le> 2 ^ 20 \<and> (\<forall>y\<in>set l. nonneg_finite y)" by simp
  have h4: "updates_succeed ?E [?l]" by code_simp
  from appended_snapshots_sum_to_one [OF h1 h2 h3 h4] obtain e where
    e: "run_updates ?E [?l] = Inr e" "sums_to_one (posteriors e ! 1)" by auto
  have r: "run_updates ?E [?l] =
     Inr (?E\<lparr>posteriors := [[Fin (1 / 4), Fin (1 / 4), Fin (1 / 4), Fin (1 / 4)],
           [Fin (6004799503160661 / 36028797018963968), Fin (6004799503160661 / 36028797018963968),
            Fin (1 / 2), Fin (6004799503160661 / 36028797018963968)]]\<rparr>)"
    by (simp add: update_uniform4_1131)
  have s: "np_sum [Fin (6004799503160661 / 36028797018963968), Fin (6004799503160661 / 36028797018963968),
            Fin (1 / 2), Fin (6004799503160661 / 36028797018963968)]
       = Fin (9007199254740991 / 9007199254740992)" by code_simp
  from e r have "sums_to_one [Fin (6004799503160661 / 36028797018963968),
         Fin (6004799503160661 / 36028797018963968),
         Fin (1 / 2), Fin (6004799503160661 / 36028797018963968)]" by auto
  with r s show ?thesis by blast
qed

text \<open>
  C3 as stated fails. The prior \<open>randint(0, 4)\<close> over the two hypotheses 0 and 1 is stored
  as \<open>[0.25, 0.25]\<close> and stays in the history after a successful update; it sums to
  \<open>0.5\<close>. With likelihood entries of both signs an appended snapshot misses 1 as well:
  on the uniform prior over four hypotheses the likelihood \<open>[4e16, 44, -4e16, 0]\<close> gives
  the total \<open>12.0\<close> and a snapshot that sums to \<open>0.875\<close>.
\<close>

theorem prior_not_normalized_counterexample:
  "updates_succeed (BayesianEstimation [Fin 0, Fin 1] (randint_pmf 0 4)) [[Fin 1, Fin 1]]
   \<and> run_updates (BayesianEstimation [Fin 0, Fin 1] (randint_pmf 0 4)) [[Fin 1, Fin 1]] =
       Inr ((BayesianEstimation [Fin 0, Fin 1] (randint_pmf 0 4))
         \<lparr>posteriors := [[Fin (1 / 4), Fin (1 / 4)], [Fin (1 / 2), Fin (1 / 2)]]\<rparr>)
   \<and> np_sum [Fin (1 / 4), Fin (1 / 4)] = Fin (1 / 2)
   \<and> \<not> sums_to_one [Fin (1 / 4), Fin (1 / 4)]
   \<and> updates_succeed (BayesianEstimation [Fin 0, Fin 1, Fin 2, Fin 3] (randint_pmf 0 4))
       [[Fin 40000000000000000, Fin 44, Fin (- 40000000000000000), Fin 0]]
   \<and> run_updates (BayesianEstimation [Fin 0, Fin 1, Fin 2, Fin 3] (randint_pmf 0 4))
       [[Fin 40000000000000000, Fin 44, Fin (- 40000000000000000), Fin 0]] =
       Inr ((BayesianEstimation [Fin 0, Fin 1, Fin 2, Fin 3] (randint_pmf 0 4))
         \<lparr>posteriors := [[Fin (1 / 4), Fin (1 / 4), Fin (1 / 4), Fin (1 / 4)],
           [Fin (6666666666666667 / 8), Fin (8256599316845909 / 9007199254740992),
            Fin (- (6666666666666667 / 8)), Fin 0]]\<rparr>)
   \<and> np_sum [Fin (6666666666666667 / 8), Fin (8256599316845909 / 9007199254740992),
            Fin (- (6666666666666667 / 8)), Fin 0] = Fin (7 / 8)
   \<and> \<not> sums_to_one [Fin (6666666666666667 / 8), Fin (8256599316845909 / 9007199254740992),
            Fin (- (6666666666666667 / 8)), Fin 0]"
proof -
  have a1: "updates_succeed (BayesianEstimation [Fin 0, Fin 1] (randint_pmf 0 4)) [[Fin 1, Fin 1]]"
    by code_simp
  have a2: "run_updates (BayesianEstimation [Fin 0, Fin 1] (randint_pmf 0 4)) [[Fin 1, Fin 1]] =
       Inr ((BayesianEstimation [Fin 0, Fin 1] (randint_pmf 0 4))
         \<lparr>posteriors := [[Fin (1 / 4), Fin (1 / 4)], [Fin (1 / 2), Fin (1 / 2)]]\<rparr>)"
    by (simp add: update_quarter2_11)
  have a3: "np_sum [Fin (1 / 4), Fin (1 / 4)] = Fin (1 / 2)" by code_simp
  have a4: "\<not> sums_to_one [Fin (1 / 4), Fin (1 / 4)]" by code_simp
  have b1: "updates_succeed (BayesianEstimation [Fin 0, Fin 1, Fin 2, Fin 3] (randint_pmf 0 4))
       [[Fin 40000000000000000, Fin 44, Fin (- 40000000000000000), Fin 0]]"
    by code_simp
  have b2: "run_updates (BayesianEstimation [Fin 0, Fin 1, Fin 2, Fin 3] (randint_pmf 0 4))
       [[Fin 40000000000000000, Fin 44, Fin (- 40000000000000000), Fin 0]] =
       Inr ((BayesianEstimation [Fin 0, Fin 1, Fin 2, Fin 3] (randint_pmf 0 4))
         \<lparr>posteriors := [[Fin (1 / 4), Fin (1 / 4), Fin (1 / 4), Fin (1 / 4)],
           [Fin (6666666666666667 / 8), Fin (8256599316845909 / 9007199254740992),
            Fin (- (6666666666666667 / 8)), Fin 0]]\<rparr>)"
    by (simp add: update_uniform4_cancel)
  have b3: "np_sum [Fin (6666666666666667 / 8), Fin (8256599316845909 / 9007199254740992),
            Fin (- (6666666666666667 / 8)), Fin 0] = Fin (7 / 8)" by code_simp
  have b4: "\<not> sums_to_one [Fin (6666666666666667 / 8), Fin (8256599316845909 / 9007199254740992),
            Fin (- (6666666666666667 / 8)), Fin 0]" by code_simp
  from a1 a2 a3 a4 b1 b2 b3 b4 show ?thesis by blast
qed

end
